theory Spec2Isabelle
  imports Main "HOL-Library.Word" "HOL-Library.Monad_Syntax"
begin

section \<open>Strings of the source language\<close>

text \<open>
  The component is TypeScript. A string value is a finite sequence of UTF-16 code
  units; \<open>length\<close>, \<open>slice\<close>, \<open>startsWith\<close> and regular expressions without the
  \<open>u\<close> flag all count and compare code units. A code unit is a 16-bit word, and
  \<open>str\<close> embeds an ASCII literal of the source.
\<close>

type_synonym jschar = "16 word"
type_synonym jsstring = "jschar list"

definition str :: "string \<Rightarrow> jsstring" where
  "str cs = map of_char cs"

definition isDigit :: "jschar \<Rightarrow> bool" where
  "isDigit c \<longleftrightarrow> 0x30 \<le> c \<and> c \<le> 0x39"

definition isAsciiUpper :: "jschar \<Rightarrow> bool" where
  "isAsciiUpper c \<longleftrightarrow> 0x41 \<le> c \<and> c \<le> 0x5A"

definition isAsciiLower :: "jschar \<Rightarrow> bool" where
  "isAsciiLower c \<longleftrightarrow> 0x61 \<le> c \<and> c \<le> 0x7A"

text \<open>
  White space as \<open>\s\<close> and \<open>String.prototype.trim\<close> see it: the WhiteSpace and
  LineTerminator productions of ECMA-262 (TAB, LF, VT, FF, CR, SP, NBSP, the
  space separators of Unicode, LS, PS and the byte order mark).
\<close>

definition isWhiteSpace :: "jschar \<Rightarrow> bool" where
  "isWhiteSpace c \<longleftrightarrow>
     c = 0x09 \<or> c = 0x0A \<or> c = 0x0B \<or> c = 0x0C \<or> c = 0x0D \<or> c = 0x20 \<or> c = 0xA0 \<or>
     c = 0x1680 \<or> (0x2000 \<le> c \<and> c \<le> 0x200A) \<or> c = 0x2028 \<or> c = 0x2029 \<or>
     c = 0x202F \<or> c = 0x205F \<or> c = 0x3000 \<or> c = 0xFEFF"

definition trim :: "jsstring \<Rightarrow> jsstring" where
  "trim s = rev (dropWhile isWhiteSpace (rev (dropWhile isWhiteSpace s)))"

definition startsWith :: "jsstring \<Rightarrow> jsstring \<Rightarrow> bool" where
  "startsWith s p \<longleftrightarrow> take (length p) s = p"

definition endsWith :: "jsstring \<Rightarrow> jsstring \<Rightarrow> bool" where
  "endsWith s p \<longleftrightarrow> length p \<le> length s \<and> drop (length s - length p) s = p"

fun includesStr :: "jsstring \<Rightarrow> jsstring \<Rightarrow> bool" where
  "includesStr [] p = (p = [])"
| "includesStr (c # cs) p = (startsWith (c # cs) p \<or> includesStr cs p)"

text \<open>
  \<open>toLowerCase\<close> on ASCII: only \<open>A\<close> to \<open>Z\<close> change. The functions modelled here
  apply \<open>toLowerCase\<close> to the result of \<open>replace(/[^a-z0-9]/gi, '_')\<close> only, a
  string of ASCII letters, digits and underscores (lemma \<open>sanitize_underscored\<close>
  below), where this is all that \<open>String.prototype.toLowerCase\<close> does.
\<close>

definition toLowerAscii :: "jschar \<Rightarrow> jschar" where
  "toLowerAscii c = (if isAsciiUpper c then c + 0x20 else c)"

definition toLowerCase :: "jsstring \<Rightarrow> jsstring" where
  "toLowerCase s = map toLowerAscii s"

section \<open>Regular expressions\<close>

text \<open>
  The regular expressions of the component use literals, character classes with a
  greedy quantifier, sequence and alternation, all anchored at the start with \<open>^\<close>.
  \<open>Lit i p\<close> is the literal text \<open>p\<close>, compared modulo case when the \<open>i\<close> flag is
  set; \<open>Chars cls lo hi\<close> is the class \<open>cls\<close> repeated at least \<open>lo\<close> and at most
  \<open>hi\<close> times (\<open>None\<close>: unbounded).

  \<open>ends r s\<close> lists, in the order a backtracking matcher tries them, the rests of
  \<open>s\<close> that remain after a match of \<open>r\<close> at the start of \<open>s\<close>.
  \<open>s.match(/^r/)\<close> is truthy when there is one, \<open>s.match(/^r$/)\<close> when one of them
  is empty (no \<open>m\<close> flag: \<open>$\<close> is the end of the input).
\<close>

datatype regex =
    Lit bool jsstring
  | Chars "jschar \<Rightarrow> bool" nat "nat option"
  | Seq regex regex
  | Alt regex regex

text \<open>
  Canonicalize of ECMA-262 without the \<open>u\<close> flag maps a code unit to its upper
  case, and leaves a code unit from 128 on alone when its upper case would be
  ASCII. Against the ASCII pattern characters of this component only the ASCII
  letters matter.
\<close>

definition canonicalize :: "jschar \<Rightarrow> jschar" where
  "canonicalize c = (if isAsciiLower c then c - 0x20 else c)"

definition sameChar :: "bool \<Rightarrow> jschar \<Rightarrow> jschar \<Rightarrow> bool" where
  "sameChar ignoreCase a c \<longleftrightarrow> (if ignoreCase then canonicalize a = canonicalize c else a = c)"

fun litEnds :: "bool \<Rightarrow> jsstring \<Rightarrow> jsstring \<Rightarrow> jsstring list" where
  "litEnds i [] s = [s]"
| "litEnds i (a # p) [] = []"
| "litEnds i (a # p) (c # s) = (if sameChar i a c then litEnds i p s else [])"

fun reps :: "(jschar \<Rightarrow> bool) \<Rightarrow> nat \<Rightarrow> nat option \<Rightarrow> jsstring \<Rightarrow> jsstring list" where
  "reps cls lo hi [] = (if lo = 0 then [[]] else [])"
| "reps cls lo hi (c # s) =
     (if cls c \<and> hi \<noteq> Some 0 then reps cls (lo - 1) (map_option (\<lambda>h. h - 1) hi) s else [])
     @ (if lo = 0 then [c # s] else [])"

fun ends :: "regex \<Rightarrow> jsstring \<Rightarrow> jsstring list" where
  "ends (Lit i p) s = litEnds i p s"
| "ends (Chars cls lo hi) s = reps cls lo hi s"
| "ends (Seq a b) s = concat (map (ends b) (ends a s))"
| "ends (Alt a b) s = ends a s @ ends b s"

definition matchStart :: "regex \<Rightarrow> jsstring \<Rightarrow> bool" where
  "matchStart r s \<longleftrightarrow> ends r s \<noteq> []"

definition matchAll :: "regex \<Rightarrow> jsstring \<Rightarrow> bool" where
  "matchAll r s \<longleftrightarrow> [] \<in> set (ends r s)"

definition isChar :: "char \<Rightarrow> jschar \<Rightarrow> bool" where
  "isChar a c \<longleftrightarrow> c = of_char a"

text \<open>\<^verbatim>\<open>/^https?:\/\//i\<close>\<close>

definition httpScheme :: regex where
  "httpScheme =
     Seq (Lit True (str ''http''))
       (Seq (Chars (sameChar True (of_char CHR ''s'')) 0 (Some 1)) (Lit True (str ''://'')))"

text \<open>\<^verbatim>\<open>/^(https?:\/\/|www\.)/i\<close>\<close>

definition urlStart :: regex where
  "urlStart = Alt httpScheme (Lit True (str ''www.''))"

text \<open>\<^verbatim>\<open>/^[^\s@]+@[^\s@]+\.[^\s@]+$/\<close>\<close>

definition notSpaceAt :: "jschar \<Rightarrow> bool" where
  "notSpaceAt c \<longleftrightarrow> \<not> (isWhiteSpace c \<or> c = of_char CHR ''@'')"

definition emailShape :: regex where
  "emailShape =
     Seq (Chars notSpaceAt 1 None)
       (Seq (Lit False (str ''@''))
         (Seq (Chars notSpaceAt 1 None)
           (Seq (Lit False (str ''.'')) (Chars notSpaceAt 1 None))))"

text \<open>\<^verbatim>\<open>/^\+?[0-9\s\(\)\-]{8,20}$/\<close>\<close>

definition phoneChar :: "jschar \<Rightarrow> bool" where
  "phoneChar c \<longleftrightarrow>
     isDigit c \<or> isWhiteSpace c \<or> c = of_char CHR ''('' \<or> c = of_char CHR '')'' \<or> c = of_char CHR ''-''"

definition phoneShape :: regex where
  "phoneShape = Seq (Chars (isChar CHR ''+'') 0 (Some 1)) (Chars phoneChar 8 (Some 20))"

section \<open>Content types and their detection\<close>

datatype ContentType = Text | Url | Email | Phone | Sms | Wifi

definition typeName :: "ContentType \<Rightarrow> jsstring" where
  "typeName t = (case t of Text \<Rightarrow> str ''text'' | Url \<Rightarrow> str ''url'' | Email \<Rightarrow> str ''email''
     | Phone \<Rightarrow> str ''phone'' | Sms \<Rightarrow> str ''sms'' | Wifi \<Rightarrow> str ''wifi'')"

definition detectContentType :: "jsstring \<Rightarrow> ContentType" where
  "detectContentType content =
     (if matchStart urlStart content then Url
      else if matchAll emailShape content then Email
      else if matchAll phoneShape content then Phone
      else if (startsWith content (str ''{'') \<and> endsWith content (str ''}''))
              \<and> includesStr content (str ''ssid'') then Wifi
      else Text)"

section \<open>JSON values and \<open>JSON.parse\<close>\<close>

text \<open>
  \<open>JSON.parse\<close> belongs to the runtime, not to the component. It is written out
  here after the JSON grammar (ECMA-404, which ECMA-262 prescribes for
  \<open>JSON.parse\<close>) as a recursive-descent parser, so that the formatter can be run on
  concrete inputs. A number keeps its source text: its value is an IEEE double,
  which is not modelled. The members of an object are kept in source order, and a
  later member of the same name overrides an earlier one when a property is read.

  Every parsing function returns the value together with the rest of the input,
  and \<open>None\<close> for a SyntaxError. The tests \<open>length ds < length s\<close> in front of the
  recursive calls always succeed, because a parsed value is never empty (lemmas
  \<open>parse_elements_plain\<close> and \<open>parse_members_plain\<close> below); they make the recursion
  visibly well-founded.
\<close>

datatype json =
    JNull
  | JBool bool
  | JNumber jsstring
  | JString jsstring
  | JArray "json list"
  | JObject "(jsstring \<times> json) list"

definition isJsonWs :: "jschar \<Rightarrow> bool" where
  "isJsonWs c \<longleftrightarrow> c = 0x20 \<or> c = 0x09 \<or> c = 0x0A \<or> c = 0x0D"

definition skipWs :: "jsstring \<Rightarrow> jsstring" where
  "skipWs s = dropWhile isJsonWs s"

definition hexValue :: "jschar \<Rightarrow> jschar option" where
  "hexValue c =
     (if isDigit c then Some (c - 0x30)
      else if 0x41 \<le> c \<and> c \<le> 0x46 then Some (c - 0x37)
      else if 0x61 \<le> c \<and> c \<le> 0x66 then Some (c - 0x57)
      else None)"

definition escapeChar :: "jschar \<Rightarrow> jschar option" where
  "escapeChar e =
     (if e = of_char CHR ''\"'' then Some 0x22
      else if e = of_char CHR 0x5C then Some 0x5C
      else if e = of_char CHR ''/'' then Some 0x2F
      else if e = of_char CHR ''b'' then Some 0x08
      else if e = of_char CHR ''f'' then Some 0x0C
      else if e = of_char CHR ''n'' then Some 0x0A
      else if e = of_char CHR ''r'' then Some 0x0D
      else if e = of_char CHR ''t'' then Some 0x09
      else None)"

definition consChar :: "jschar \<Rightarrow> (jsstring \<times> jsstring) option \<Rightarrow> (jsstring \<times> jsstring) option" where
  "consChar c r = map_option (\<lambda>(t, rest). (c # t, rest)) r"

fun parse_string :: "jsstring \<Rightarrow> (jsstring \<times> jsstring) option" where
  "parse_string [] = None"
| "parse_string (c # cs) =
     (if c = 0x22 then Some ([], cs)
      else if c = 0x5C then
        (case cs of
           [] \<Rightarrow> None
         | e # es \<Rightarrow>
             if e = of_char CHR ''u'' then
               (case es of
                  h1 # h2 # h3 # h4 # r \<Rightarrow>
                    (case (hexValue h1, hexValue h2, hexValue h3, hexValue h4) of
                       (Some a, Some b, Some c', Some d) \<Rightarrow>
                         consChar (((a * 16 + b) * 16 + c') * 16 + d) (parse_string r)
                     | _ \<Rightarrow> None)
                | _ \<Rightarrow> None)
             else (case escapeChar e of None \<Rightarrow> None | Some x \<Rightarrow> consChar x (parse_string es)))
      else if c < 0x20 then None
      else consChar c (parse_string cs))"

definition digitsOf :: "jsstring \<Rightarrow> jsstring \<times> jsstring" where
  "digitsOf s = (takeWhile isDigit s, dropWhile isDigit s)"

definition parse_int :: "jsstring \<Rightarrow> (jsstring \<times> jsstring) option" where
  "parse_int s =
     (case s of
        [] \<Rightarrow> None
      | d # ds \<Rightarrow>
          if d = 0x30 then Some ([d], ds)
          else if isDigit d then Some (digitsOf s)
          else None)"

definition parse_frac :: "jsstring \<Rightarrow> (jsstring \<times> jsstring) option" where
  "parse_frac s =
     (case s of
        [] \<Rightarrow> Some ([], s)
      | p # ps \<Rightarrow>
          if p = of_char CHR ''.'' then
            (case digitsOf ps of (ds, rest) \<Rightarrow> if ds = [] then None else Some (p # ds, rest))
          else Some ([], s))"

definition parse_exp :: "jsstring \<Rightarrow> (jsstring \<times> jsstring) option" where
  "parse_exp s =
     (case s of
        [] \<Rightarrow> Some ([], s)
      | e # es \<Rightarrow>
          if e = of_char CHR ''e'' \<or> e = of_char CHR ''E'' then
            (case (case es of
                     [] \<Rightarrow> ([], es)
                   | g # gs \<Rightarrow> if g = of_char CHR ''+'' \<or> g = of_char CHR ''-'' then ([g], gs) else ([], es)) of
               (sign, es') \<Rightarrow>
                 (case digitsOf es' of (ds, rest) \<Rightarrow> if ds = [] then None else Some (e # sign @ ds, rest)))
          else Some ([], s))"

definition parse_number :: "jsstring \<Rightarrow> (jsstring \<times> jsstring) option" where
  "parse_number s =
     (case (case s of [] \<Rightarrow> ([], s) | m # ms \<Rightarrow> if m = of_char CHR ''-'' then ([m], ms) else ([], s)) of
        (sign, s1) \<Rightarrow>
          do {
            (ip, s2) \<leftarrow> parse_int s1;
            (fp, s3) \<leftarrow> parse_frac s2;
            (ep, s4) \<leftarrow> parse_exp s3;
            Some (sign @ ip @ fp @ ep, s4)
          })"

fun parse_value :: "jsstring \<Rightarrow> (json \<times> jsstring) option"
  and parse_elements :: "jsstring \<Rightarrow> (json list \<times> jsstring) option"
  and parse_members :: "jsstring \<Rightarrow> ((jsstring \<times> json) list \<times> jsstring) option"
where
  "parse_value [] = None"
| "parse_value (c # cs) =
     (if isJsonWs c then parse_value cs
      else if c = of_char CHR ''{'' then
        (if startsWith (skipWs cs) (str ''}'') then Some (JObject [], drop 1 (skipWs cs))
         else map_option (apfst JObject) (parse_members cs))
      else if c = of_char CHR ''['' then
        (if startsWith (skipWs cs) (str '']'') then Some (JArray [], drop 1 (skipWs cs))
         else map_option (apfst JArray) (parse_elements cs))
      else if c = 0x22 then map_option (apfst JString) (parse_string cs)
      else if c = of_char CHR ''-'' \<or> isDigit c then map_option (apfst JNumber) (parse_number (c # cs))
      else if startsWith (c # cs) (str ''true'') then Some (JBool True, drop 3 cs)
      else if startsWith (c # cs) (str ''false'') then Some (JBool False, drop 4 cs)
      else if startsWith (c # cs) (str ''null'') then Some (JNull, drop 3 cs)
      else None)"
| "parse_elements s =
     (case parse_value s of
        None \<Rightarrow> None
      | Some (v, r) \<Rightarrow>
          (case skipWs r of
             [] \<Rightarrow> None
           | d # ds \<Rightarrow>
               if d = of_char CHR '','' then
                 (if length ds < length s
                  then map_option (apfst (Cons v)) (parse_elements ds) else None)
               else if d = of_char CHR '']'' then Some ([v], ds)
               else None))"
| "parse_members s =
     (case skipWs s of
        [] \<Rightarrow> None
      | q # ks \<Rightarrow>
          if q = 0x22 then
            (case parse_string ks of
               None \<Rightarrow> None
             | Some (k, r) \<Rightarrow>
                 (case skipWs r of
                    [] \<Rightarrow> None
                  | p # vs \<Rightarrow>
                      if p = of_char CHR '':'' \<and> length vs < length s then
                        (case parse_value vs of
                           None \<Rightarrow> None
                         | Some (v, r') \<Rightarrow>
                             (case skipWs r' of
                                [] \<Rightarrow> None
                              | d # ds \<Rightarrow>
                                  if d = of_char CHR '','' then
                                    (if length ds < length s
                                     then map_option (apfst (Cons (k, v))) (parse_members ds) else None)
                                  else if d = of_char CHR ''}'' then Some ([(k, v)], ds)
                                  else None))
                      else None))
          else None)"

definition JSON_parse :: "jsstring \<Rightarrow> json option" where
  "JSON_parse text =
     (case parse_value text of
        None \<Rightarrow> None
      | Some (v, r) \<Rightarrow> if skipWs r = [] then Some v else None)"

section \<open>Values in a template literal\<close>

text \<open>
  What the formatter does with a parsed value: it reads a property, tests the
  result for truthiness (\<open>||\<close>) and converts it to a string (\<open>${...}\<close>).

  Two things are left to the engine that runs the component, and are parameters
  of everything below. \<open>numberToString\<close> is the decimal rendering of the double
  that a JSON number denotes (Number::toString of ECMA-262); floating point is not
  modelled. A number is \<open>0\<close> or \<open>-0\<close>, hence falsy, exactly when it renders as
  \<open>0\<close>. \<open>rangeError E v\<close> says that the engine \<open>E\<close> ends the conversion of the
  array \<open>v\<close> to a string with a RangeError: the conversion recurses through
  \<open>Array.prototype.join\<close>, and arrays nested some thousands deep exhaust the call
  stack. How deep is too deep is the engine's affair.

  \<open>ToString\<close> returns \<open>None\<close> where the conversion throws. It throws a TypeError
  on an object with a member \<open>toString\<close> of its own, which hides
  \<open>Object.prototype.toString\<close> behind a value that cannot be called, while
  \<open>valueOf\<close> yields no primitive either. It throws a RangeError on an array that
  the engine gives up on. Otherwise an array is the join of its elements, \<open>null\<close>
  elements as empty strings, and the conversion throws when that of an element
  does.
\<close>

record engine =
  numberToString :: "jsstring \<Rightarrow> jsstring"
  rangeError :: "json \<Rightarrow> bool"

fun joinComma :: "jsstring list \<Rightarrow> jsstring" where
  "joinComma [] = []"
| "joinComma [a] = a"
| "joinComma (a # b # r) = a @ str '','' @ joinComma (b # r)"

definition getOwn :: "(jsstring \<times> json) list \<Rightarrow> jsstring \<Rightarrow> json option" where
  "getOwn ms k = map_of (rev ms) k"

fun ToString :: "engine \<Rightarrow> json \<Rightarrow> jsstring option" where
  "ToString N JNull = Some (str ''null'')"
| "ToString N (JBool b) = Some (if b then str ''true'' else str ''false'')"
| "ToString N (JNumber l) = Some (numberToString N l)"
| "ToString N (JString s) = Some s"
| "ToString N (JArray vs) =
     (if rangeError N (JArray vs) then None
      else map_option joinComma
             (those (map (\<lambda>v. if v = JNull then Some [] else ToString N v) vs)))"
| "ToString N (JObject ms) =
     (if getOwn ms (str ''toString'') = None then Some (str ''[object Object]'') else None)"

fun ToBoolean :: "engine \<Rightarrow> json \<Rightarrow> bool" where
  "ToBoolean N JNull = False"
| "ToBoolean N (JBool b) = b"
| "ToBoolean N (JNumber l) = (numberToString N l \<noteq> str ''0'')"
| "ToBoolean N (JString s) = (s \<noteq> [])"
| "ToBoolean N (JArray vs) = True"
| "ToBoolean N (JObject ms) = True"

text \<open>
  \<open>wifiData.encryption\<close>, \<open>wifiData.ssid\<close> and \<open>wifiData.password\<close>: reading a
  property of \<open>null\<close> throws (\<open>None\<close>); an object gives its member or \<open>undefined\<close>
  (\<open>Some None\<close>); a number, a string, a boolean and an array have none of these three
  properties.
\<close>

definition getProp :: "json \<Rightarrow> jsstring \<Rightarrow> json option option" where
  "getProp v k =
     (case v of
        JNull \<Rightarrow> None
      | JObject ms \<Rightarrow> Some (getOwn ms k)
      | _ \<Rightarrow> Some None)"

text \<open>\<^verbatim>\<open>${x || d}\<close>\<close>

definition orDefault :: "engine \<Rightarrow> json option \<Rightarrow> jsstring \<Rightarrow> jsstring option" where
  "orDefault N x d =
     (case x of
        None \<Rightarrow> Some d
      | Some v \<Rightarrow> if ToBoolean N v then ToString N v else Some d)"

section \<open>formatContentByType\<close>

text \<open>
  The body of the \<open>try\<close> block of the \<open>wifi\<close> case; \<open>None\<close> is an exception, which
  the \<open>catch\<close> turns into the unchanged content.
\<close>

definition wifiString :: "engine \<Rightarrow> jsstring \<Rightarrow> jsstring option" where
  "wifiString N content =
     do {
       wifiData \<leftarrow> JSON_parse content;
       encryption \<leftarrow> getProp wifiData (str ''encryption'');
       e \<leftarrow> orDefault N encryption (str ''WPA'');
       ssid \<leftarrow> getProp wifiData (str ''ssid'');
       s \<leftarrow> orDefault N ssid [];
       password \<leftarrow> getProp wifiData (str ''password'');
       p \<leftarrow> orDefault N password [];
       Some (str ''WIFI:T:'' @ e @ str '';S:'' @ s @ str '';P:'' @ p @ str '';;'')
     }"

fun formatContentByType :: "engine \<Rightarrow> jsstring \<Rightarrow> ContentType \<Rightarrow> jsstring" where
  "formatContentByType N content Url =
     (if \<not> matchStart httpScheme content then str ''https://'' @ content else content)"
| "formatContentByType N content Email = str ''mailto:'' @ content"
| "formatContentByType N content Phone = str ''tel:'' @ content"
| "formatContentByType N content Sms = str ''sms:'' @ content"
| "formatContentByType N content Wifi =
     (case wifiString N content of Some formatted \<Rightarrow> formatted | None \<Rightarrow> content)"
| "formatContentByType N content Text = content"

subsection \<open>The earlier copy\<close>

text \<open>
  The first of the two versions of the component in \<open>QRCodeGenerator.tsx\<close> has a
  \<open>formatContentByType\<close> of its own (lines 52 to 72). Its content types have no
  \<open>sms\<close>; it leaves alone a content that already starts with \<open>mailto:\<close> or
  \<open>tel:\<close>; and its \<open>wifi\<close> case returns \<open>JSON.stringify(JSON.parse(content))\<close>.
  \<open>JSON.stringify\<close> belongs to the runtime and is a parameter here, \<open>None\<close> where
  it throws, which the \<open>catch\<close> turns into the unchanged content.
\<close>

datatype EarlierContentType = EarlierText | EarlierUrl | EarlierEmail | EarlierPhone | EarlierWifi

fun formatContentByType_earlier ::
  "(json \<Rightarrow> jsstring option) \<Rightarrow> jsstring \<Rightarrow> EarlierContentType \<Rightarrow> jsstring"
where
  "formatContentByType_earlier stringify content EarlierUrl =
     (if matchStart httpScheme content then content else str ''https://'' @ content)"
| "formatContentByType_earlier stringify content EarlierEmail =
     (if startsWith content (str ''mailto:'') then content else str ''mailto:'' @ content)"
| "formatContentByType_earlier stringify content EarlierPhone =
     (if startsWith content (str ''tel:'') then content else str ''tel:'' @ content)"
| "formatContentByType_earlier stringify content EarlierWifi =
     (case JSON_parse content of
        None \<Rightarrow> content
      | Some wifiData \<Rightarrow>
          (case stringify wifiData of None \<Rightarrow> content | Some text \<Rightarrow> text))"
| "formatContentByType_earlier stringify content EarlierText = content"

section \<open>generateBatchQRCodes\<close>

datatype Mode = Single | Batch | YandexUltima

record BatchEntry =
  content :: jsstring
  type :: ContentType

record BatchQRCode = BatchEntry +
  dataUrl :: jsstring
  formattedContent :: jsstring

text \<open>
  \<open>QRCode.toDataURL\<close> is the encoder of the \<open>qrcode\<close> package: a parameter, \<open>None\<close>
  where it rejects its input.
\<close>

type_synonym encoder = "jsstring \<Rightarrow> jsstring option"

definition promoLink :: "jsstring \<Rightarrow> jsstring" where
  "promoLink code =
     str ''https://8jxm.adj.st/addpromocode?adj_t=rf7a0p4_8cgc7kg&ref=qr&code='' @ code"

definition hasContent :: "BatchEntry \<Rightarrow> bool" where
  "hasContent entry \<longleftrightarrow> trim (content entry) \<noteq> []"

text \<open>
  The text that the loop encodes for an entry: the promo link in the
  \<open>yandex-ultima\<close> mode, the formatted content otherwise.
\<close>

definition payload :: "engine \<Rightarrow> Mode \<Rightarrow> BatchEntry \<Rightarrow> jsstring" where
  "payload N mode entry =
     (if mode = YandexUltima then promoLink (content entry)
      else formatContentByType N (content entry) (type entry))"

text \<open>The \<open>for\<close> loop over \<open>batchEntries\<close>; \<open>None\<close> when an encoding throws.\<close>

fun batchLoop ::
  "encoder \<Rightarrow> engine \<Rightarrow> Mode \<Rightarrow> BatchEntry list \<Rightarrow> BatchQRCode list \<Rightarrow> BatchQRCode list option"
where
  "batchLoop toDataURL N mode [] batchResults = Some batchResults"
| "batchLoop toDataURL N mode (entry # rest) batchResults =
     (if hasContent entry then
        (case toDataURL (payload N mode entry) of
           None \<Rightarrow> None
         | Some url \<Rightarrow>
             batchLoop toDataURL N mode rest
               (batchResults @
                  [\<lparr>content = content entry, type = type entry, dataUrl = url,
                    formattedContent = payload N mode entry\<rparr>]))
      else batchLoop toDataURL N mode rest batchResults)"

text \<open>
  The run ends in \<open>setBatchCodes(batchResults)\<close> (\<open>Inr\<close>) or in \<open>setError\<close> with
  \<open>batchCodes\<close> left as it was (\<open>Inl\<close>): \<open>NoContent\<close> is "Please enter content for
  at least one QR code", \<open>GenerationFailed\<close> is "Failed to generate batch QR codes".
\<close>

datatype batchError = NoContent | GenerationFailed

definition generateBatchQRCodes ::
  "encoder \<Rightarrow> engine \<Rightarrow> Mode \<Rightarrow> BatchEntry list \<Rightarrow> batchError + BatchQRCode list"
where
  "generateBatchQRCodes toDataURL N mode batchEntries =
     (if \<not> list_ex hasContent batchEntries then Inl NoContent
      else
        (case batchLoop toDataURL N mode batchEntries [] of
           None \<Rightarrow> Inl GenerationFailed
         | Some batchResults \<Rightarrow> Inr batchResults))"

section \<open>File names in the archive\<close>

datatype FileFormat = Png | Eps

definition formatName :: "FileFormat \<Rightarrow> jsstring" where
  "formatName f = (case f of Png \<Rightarrow> str ''png'' | Eps \<Rightarrow> str ''eps'')"

text \<open>
  \<^verbatim>\<open>/[^a-z0-9]/gi\<close>: with the \<open>i\<close> flag a code unit is in the class \<open>[a-z0-9]\<close> when
  its canonical form is that of a member, an upper-case ASCII letter or a digit.
\<close>

definition notAlnum :: "jschar \<Rightarrow> bool" where
  "notAlnum c \<longleftrightarrow> \<not> (isAsciiUpper (canonicalize c) \<or> isDigit (canonicalize c))"

definition replaceAll :: "(jschar \<Rightarrow> bool) \<Rightarrow> jsstring \<Rightarrow> jsstring \<Rightarrow> jsstring" where
  "replaceAll cls repl s = concat (map (\<lambda>c. if cls c then repl else [c]) s)"

definition sanitize :: "jsstring \<Rightarrow> jsstring" where
  "sanitize s = take 30 (toLowerCase (replaceAll notAlnum (str ''_'') s))"

text \<open>The name chosen for one code in the loop of \<open>downloadAllQRCodesAsZip\<close>.\<close>

definition zipFilename :: "bool \<Rightarrow> Mode \<Rightarrow> FileFormat \<Rightarrow> BatchQRCode \<Rightarrow> jsstring" where
  "zipFilename useContentAsFilename mode fileFormat code =
     (if useContentAsFilename \<or> mode = YandexUltima
      then sanitize (content code) @ str ''.'' @ formatName fileFormat
      else sanitize (formattedContent code) @ str ''_'' @ typeName (type code)
             @ str ''.'' @ formatName fileFormat)"

section \<open>convertCanvasToEPS\<close>

text \<open>
  A canvas has a width, a height and, when \<open>getContext('2d')\<close> answers, the bytes of
  its bitmap in RGBA order, row by row. \<open>getImageData(0, 0, width, height)\<close> throws
  an IndexSizeError when a side is zero. Reading \<open>data[i]\<close> past the end gives
  \<open>undefined\<close>, and \<open>undefined > 128\<close> is false.
\<close>

record canvas =
  width :: nat
  height :: nat
  context2d :: "8 word list option"

datatype epsError = IndexSizeError | FailedToGetImageData

function showNat :: "nat \<Rightarrow> jsstring" where
  "showNat n = (if n < 10 then [of_nat (48 + n)] else showNat (n div 10) @ [of_nat (48 + n mod 10)])"
  by pat_completeness auto
termination
  by (relation "measure id") auto

declare showNat.simps [simp del]

definition getImageData :: "canvas \<Rightarrow> epsError + 8 word list option" where
  "getImageData c =
     (case context2d c of
        None \<Rightarrow> Inr None
      | Some bytes \<Rightarrow> if width c = 0 \<or> height c = 0 then Inl IndexSizeError else Inr (Some bytes))"

definition opaque :: "8 word list \<Rightarrow> nat \<Rightarrow> bool" where
  "opaque bytes i \<longleftrightarrow> i < length bytes \<and> 128 < bytes ! i"

definition epsHeader :: "nat \<Rightarrow> nat \<Rightarrow> jsstring" where
  "epsHeader w h =
     str ''%!PS-Adobe-3.0 EPSF-3.0\<newline>''
     @ str ''%%BoundingBox: 0 0 '' @ showNat w @ str '' '' @ showNat h @ str ''\<newline>''
     @ str ''/scanline { % x y scanline\<newline>''
     @ str ''  /y exch def\<newline>''
     @ str ''  /x exch def\<newline>''
     @ str ''  x y moveto\<newline>''
     @ str ''  x 1 add y lineto\<newline>''
     @ str ''  stroke\<newline>''
     @ str ''} def\<newline>''
     @ str ''0.5 setlinewidth\<newline>''
     @ str ''0 setgray\<newline>''"

definition scanline :: "nat \<Rightarrow> nat \<Rightarrow> nat \<Rightarrow> jsstring" where
  "scanline h x y = showNat x @ str '' '' @ showNat (h - y) @ str '' scanline\<newline>''"

function xLoop :: "8 word list \<Rightarrow> nat \<Rightarrow> nat \<Rightarrow> nat \<Rightarrow> nat \<Rightarrow> jsstring \<Rightarrow> jsstring" where
  "xLoop bytes w h y x eps =
     (if x < w then
        xLoop bytes w h y (Suc x)
          (if opaque bytes ((y * w + x) * 4 + 3) then eps @ scanline h x y else eps)
      else eps)"
  by pat_completeness auto
termination
  by (relation "measure (\<lambda>(bytes, w, h, y, x, eps). w - x)") auto

declare xLoop.simps [simp del]

function yLoop :: "8 word list \<Rightarrow> nat \<Rightarrow> nat \<Rightarrow> nat \<Rightarrow> jsstring \<Rightarrow> jsstring" where
  "yLoop bytes w h y eps =
     (if y < h then yLoop bytes w h (Suc y) (xLoop bytes w h y 0 eps) else eps)"
  by pat_completeness auto
termination
  by (relation "measure (\<lambda>(bytes, w, h, y, eps). h - y)") auto

declare yLoop.simps [simp del]

definition convertCanvasToEPS :: "canvas \<Rightarrow> epsError + jsstring" where
  "convertCanvasToEPS c =
     (case getImageData c of
        Inl e \<Rightarrow> Inl e
      | Inr None \<Rightarrow> Inl FailedToGetImageData
      | Inr (Some bytes) \<Rightarrow>
          Inr (yLoop bytes (width c) (height c) 0 (epsHeader (width c) (height c))
               @ str ''showpage\<newline>''))"

section \<open>Notions used to state the properties\<close>

text \<open>
  The definitions of this section do not come from the source. They say in plain
  terms what the specification says, and the theorems compare them with the
  functions above.
\<close>

text \<open>
  Engines for the examples. \<open>asWritten\<close> prints a number as it is written in the
  JSON text, which is what JavaScript prints for a plain integer such as \<open>42\<close>, and
  never runs out of stack. \<open>shallowStack\<close> differs in that it gives up on arrays
  nested more than two deep.
\<close>

fun nesting :: "json \<Rightarrow> nat" where
  "nesting (JArray vs) = Suc (fold max (map nesting vs) 0)"
| "nesting v = 0"

definition asWritten :: engine where
  "asWritten = \<lparr>numberToString = (\<lambda>l. l), rangeError = (\<lambda>v. False)\<rparr>"

definition shallowStack :: engine where
  "shallowStack = \<lparr>numberToString = (\<lambda>l. l), rangeError = (\<lambda>v. 2 < nesting v)\<rparr>"

text \<open>
  A stand-in for \<open>JSON.stringify\<close> in the examples of the earlier copy, none of
  which reaches its \<open>wifi\<close> case.
\<close>

definition noStringify :: "json \<Rightarrow> jsstring option" where
  "noStringify v = None"

text \<open>An encoder for the examples: it accepts everything.\<close>

definition sampleEncoder :: encoder where
  "sampleEncoder p = Some (str ''data:image/png;base64,'' @ p)"

subsection \<open>Shapes of strings\<close>

text \<open>
  Two strings are equal without regard to case when they agree after the letters
  \<open>A\<close> to \<open>Z\<close> are turned to lower case. A regular expression with the flag \<open>i\<close>
  and without the flag \<open>u\<close> never takes a code unit outside ASCII for an ASCII
  letter, so no other letters are concerned.
\<close>

definition equalIgnoreCase :: "jsstring \<Rightarrow> jsstring \<Rightarrow> bool" where
  "equalIgnoreCase a b \<longleftrightarrow> map toLowerAscii a = map toLowerAscii b"

definition startsWithIgnoreCase :: "jsstring \<Rightarrow> jsstring \<Rightarrow> bool" where
  "startsWithIgnoreCase s p \<longleftrightarrow> equalIgnoreCase (take (length p) s) p"

text \<open>A number of repetitions within the bounds of a quantifier.\<close>

definition within :: "nat \<Rightarrow> nat option \<Rightarrow> nat \<Rightarrow> bool" where
  "within lo hi n \<longleftrightarrow> lo \<le> n \<and> (case hi of None \<Rightarrow> True | Some h \<Rightarrow> n \<le> h)"

text \<open>The four checks of the detector, as the specification words them.\<close>

definition looksLikeUrl :: "jsstring \<Rightarrow> bool" where
  "looksLikeUrl s \<longleftrightarrow>
     startsWithIgnoreCase s (str ''http://'') \<or> startsWithIgnoreCase s (str ''https://'')
     \<or> startsWithIgnoreCase s (str ''www.'')"

definition looksLikeEmail :: "jsstring \<Rightarrow> bool" where
  "looksLikeEmail s \<longleftrightarrow>
     (\<exists>local domain tld.
        s = local @ str ''@'' @ domain @ str ''.'' @ tld
        \<and> local \<noteq> [] \<and> domain \<noteq> [] \<and> tld \<noteq> []
        \<and> list_all notSpaceAt local \<and> list_all notSpaceAt domain \<and> list_all notSpaceAt tld)"

definition looksLikePhone :: "jsstring \<Rightarrow> bool" where
  "looksLikePhone s \<longleftrightarrow>
     (\<exists>sign body.
        s = sign @ body \<and> (sign = [] \<or> sign = str ''+'')
        \<and> 8 \<le> length body \<and> length body \<le> 20 \<and> list_all phoneChar body)"

definition looksLikeWifi :: "jsstring \<Rightarrow> bool" where
  "looksLikeWifi s \<longleftrightarrow>
     (\<exists>r. s = str ''{'' @ r) \<and> (\<exists>r. s = r @ str ''}'') \<and> (\<exists>a b. s = a @ str ''ssid'' @ b)"

subsection \<open>Parsed values as text\<close>

text \<open>
  \<open>throwsOnToString E v\<close>: converting \<open>v\<close> to a string throws, because \<open>v\<close> is an
  object with a member \<open>toString\<close>, or an array that the engine runs out of stack
  on, or an array with an element whose conversion throws. \<open>render E v\<close> is the
  string of a value whose conversion does not throw.
\<close>

fun throwsOnToString :: "engine \<Rightarrow> json \<Rightarrow> bool" where
  "throwsOnToString E (JObject ms) = (str ''toString'' \<in> fst ` set ms)"
| "throwsOnToString E (JArray vs) = (rangeError E (JArray vs) \<or> list_ex (throwsOnToString E) vs)"
| "throwsOnToString E v = False"

fun render :: "engine \<Rightarrow> json \<Rightarrow> jsstring" where
  "render N JNull = str ''null''"
| "render N (JBool b) = (if b then str ''true'' else str ''false'')"
| "render N (JNumber l) = numberToString N l"
| "render N (JString s) = s"
| "render N (JArray vs) = joinComma (map (\<lambda>v. if v = JNull then [] else render N v) vs)"
| "render N (JObject ms) = str ''[object Object]''"

text \<open>
  The member \<open>k\<close> of a parsed value (none unless it is an object that has one); the
  text that stands for it in the payload, the default \<open>d\<close> when the member is missing
  or falsy; and whether its conversion throws.
\<close>

definition member :: "json \<Rightarrow> jsstring \<Rightarrow> json option" where
  "member v k = (case v of JObject ms \<Rightarrow> getOwn ms k | _ \<Rightarrow> None)"

definition fieldText :: "engine \<Rightarrow> json \<Rightarrow> jsstring \<Rightarrow> jsstring \<Rightarrow> jsstring" where
  "fieldText N v k d =
     (case member v k of None \<Rightarrow> d | Some x \<Rightarrow> if ToBoolean N x then render N x else d)"

definition fieldThrows :: "engine \<Rightarrow> json \<Rightarrow> jsstring \<Rightarrow> bool" where
  "fieldThrows N v k \<longleftrightarrow>
     (case member v k of None \<Rightarrow> False | Some x \<Rightarrow> ToBoolean N x \<and> throwsOnToString N x)"

definition wifiText :: "engine \<Rightarrow> json \<Rightarrow> jsstring" where
  "wifiText N v =
     str ''WIFI:T:'' @ fieldText N v (str ''encryption'') (str ''WPA'')
     @ str '';S:'' @ fieldText N v (str ''ssid'') []
     @ str '';P:'' @ fieldText N v (str ''password'') []
     @ str '';;''"

subsection \<open>Batch runs\<close>

text \<open>
  \<open>encodes toDataURL text entry code\<close>: \<open>code\<close> is the result for \<open>entry\<close> when \<open>text\<close>
  is the payload. \<open>accepts\<close>: the encoder rejects no payload of a run.
\<close>

definition encodes :: "encoder \<Rightarrow> jsstring \<Rightarrow> BatchEntry \<Rightarrow> BatchQRCode \<Rightarrow> bool" where
  "encodes toDataURL text entry code \<longleftrightarrow>
     content code = content entry \<and> type code = type entry
     \<and> formattedContent code = text \<and> toDataURL text = Some (dataUrl code)"

definition accepts :: "encoder \<Rightarrow> engine \<Rightarrow> Mode \<Rightarrow> BatchEntry list \<Rightarrow> bool" where
  "accepts toDataURL N mode entries \<longleftrightarrow>
     list_all (\<lambda>e. toDataURL (payload N mode e) \<noteq> None) (filter hasContent entries)"

text \<open>Three entries for the examples; the second is blank.\<close>

definition sampleEntries :: "BatchEntry list" where
  "sampleEntries =
     [\<lparr>content = str ''PROMO1'', type = Text\<rparr>,
      \<lparr>content = str ''  '', type = Text\<rparr>,
      \<lparr>content = str ''a@b.c'', type = Email\<rparr>]"

subsection \<open>File names\<close>

text \<open>
  \<open>strippedName\<close> is the name as the specification words it: the characters
  outside \<open>[a-z0-9]\<close>, in either case, are removed. \<open>underscoredName\<close> puts an
  underscore in the place of each.
\<close>

definition isAlnum :: "jschar \<Rightarrow> bool" where
  "isAlnum c \<longleftrightarrow> isDigit c \<or> isAsciiLower c \<or> isAsciiUpper c"

definition strippedName :: "jsstring \<Rightarrow> jsstring" where
  "strippedName s = take 30 (toLowerCase (filter isAlnum s))"

definition underscoredName :: "jsstring \<Rightarrow> jsstring" where
  "underscoredName s =
     take 30 (map (\<lambda>c. if isAlnum c then toLowerAscii c else of_char CHR ''_'') s)"

text \<open>A code for the examples; its content has a letter outside ASCII and a space.\<close>

definition sampleCode :: BatchQRCode where
  "sampleCode = \<lparr>content = str ''Caf'' @ [0xE9] @ str '' 01'', type = Url, dataUrl = str ''data:,'',
                  formattedContent = str ''https://Caf'' @ [0xE9] @ str '' 01''\<rparr>"

subsection \<open>Bitmaps\<close>

text \<open>
  The pixels of a bitmap in raster order, row by row from the top, as pairs of a
  column \<open>x\<close> and a row \<open>y\<close>; the alpha value of a pixel, the fourth of its four
  bytes; and the lines of the header that follow the bounding box.
\<close>

definition rasterOrder :: "nat \<Rightarrow> nat \<Rightarrow> (nat \<times> nat) list" where
  "rasterOrder w h = concat (map (\<lambda>y. map (\<lambda>x. (x, y)) [0..<w]) [0..<h])"

definition alpha :: "8 word list \<Rightarrow> nat \<Rightarrow> nat \<Rightarrow> nat \<Rightarrow> 8 word" where
  "alpha bytes w x y = bytes ! (4 * (y * w + x) + 3)"

definition epsProlog :: jsstring where
  "epsProlog =
     str ''/scanline { % x y scanline\<newline>''
     @ str ''  /y exch def\<newline>''
     @ str ''  /x exch def\<newline>''
     @ str ''  x y moveto\<newline>''
     @ str ''  x 1 add y lineto\<newline>''
     @ str ''  stroke\<newline>''
     @ str ''} def\<newline>''
     @ str ''0.5 setlinewidth\<newline>''
     @ str ''0 setgray\<newline>''"

section \<open>What the regular expressions accept\<close>

lemma litEnds_iff:
  "t \<in> set (litEnds i p s) \<longleftrightarrow> (\<exists>u. s = u @ t \<and> list_all2 (sameChar i) p u)"
proof (induction i p s rule: litEnds.induct)
  case (1 i s)
  then show ?case by auto
next
  case (2 i a p)
  then show ?case by auto
next
  case (3 i a p c s)
  show ?case
  proof (cases "sameChar i a c")
    case True
    then show ?thesis using 3 by (auto simp: list_all2_Cons1 Cons_eq_append_conv)
  next
    case False
    then show ?thesis by (auto simp: list_all2_Cons1 Cons_eq_append_conv)
  qed
qed

lemma reps_iff:
  "t \<in> set (reps cls lo hi s) \<longleftrightarrow>
     (\<exists>u. s = u @ t \<and> list_all cls u \<and> within lo hi (length u))"
proof (induction s arbitrary: lo hi)
  case Nil
  then show ?case by (auto simp: within_def split: option.splits)
next
  case (Cons c s)
  have step: "(\<exists>u. c # s = u @ t \<and> list_all cls u \<and> within lo hi (length u)) \<longleftrightarrow>
      (lo = 0 \<and> t = c # s) \<or>
      (cls c \<and> hi \<noteq> Some 0 \<and>
        (\<exists>u. s = u @ t \<and> list_all cls u \<and> within (lo - 1) (map_option (\<lambda>h. h - 1) hi) (length u)))"
    (is "?L \<longleftrightarrow> ?A \<or> ?B")
  proof
    assume ?L
    then obtain u where u: "c # s = u @ t" "list_all cls u" "within lo hi (length u)" by blast
    show "?A \<or> ?B"
    proof (cases u)
      case Nil
      then show ?thesis using u by (auto simp: within_def)
    next
      case (Cons d u')
      then have "s = u' @ t" "cls c" "list_all cls u'" using u by auto
      moreover have "hi \<noteq> Some 0" using u Cons by (auto simp: within_def)
      moreover have "within (lo - 1) (map_option (\<lambda>h. h - 1) hi) (length u')"
        using u Cons by (auto simp: within_def split: option.splits)
      ultimately show ?thesis by blast
    qed
  next
    assume "?A \<or> ?B"
    then show ?L
    proof
      assume ?A
      then have "c # s = [] @ t \<and> list_all cls [] \<and> within lo hi (length ([]::jsstring))"
        by (auto simp: within_def split: option.splits)
      then show ?L by blast
    next
      assume ?B
      then obtain u where u: "cls c" "hi \<noteq> Some 0" "s = u @ t" "list_all cls u"
        "within (lo - 1) (map_option (\<lambda>h. h - 1) hi) (length u)" by blast
      then have "c # s = (c # u) @ t \<and> list_all cls (c # u) \<and> within lo hi (length (c # u))"
        by (auto simp: within_def split: option.splits)
      then show ?L by blast
    qed
  qed
  show ?case
    unfolding step using Cons.IH [of "lo - 1" "map_option (\<lambda>h. h - 1) hi"] by auto
qed

lemma ends_Seq_iff:
  "t \<in> set (ends (Seq a b) s) \<longleftrightarrow> (\<exists>m \<in> set (ends a s). t \<in> set (ends b m))"
  by auto

lemma unat_canonicalize:
  "unat (canonicalize c) = (if 97 \<le> unat c \<and> unat c \<le> 122 then unat c - 32 else unat c)"
proof -
  have "unat (c - 0x20) = unat c - 32" if "0x61 \<le> c"
  proof -
    have "(0x20 :: jschar) \<le> c" using that by (simp add: word_le_nat_alt)
    then show ?thesis by (simp add: unat_sub)
  qed
  then show ?thesis
    by (simp add: canonicalize_def isAsciiLower_def word_le_nat_alt)
qed

lemma unat_toLowerAscii:
  "unat (toLowerAscii c) = (if 65 \<le> unat c \<and> unat c \<le> 90 then unat c + 32 else unat c)"
proof -
  have "unat (c + 0x20) = unat c + 32" if "c \<le> 0x5A"
  proof -
    have "unat c \<le> 90" using that by (simp add: word_le_nat_alt)
    then have "unat c + unat (0x20 :: jschar) < 2 ^ LENGTH(16)" by simp
    then have "unat (c + 0x20) = unat c + unat (0x20 :: jschar)" by (simp only: unat_add_lem)
    then show ?thesis by simp
  qed
  then show ?thesis
    by (simp add: toLowerAscii_def isAsciiUpper_def word_le_nat_alt)
qed

lemma canon_lower:
  "canonicalize a = canonicalize c \<longleftrightarrow> toLowerAscii a = toLowerAscii c"
proof -
  have "canonicalize a = canonicalize c \<longleftrightarrow> unat (canonicalize a) = unat (canonicalize c)"
    by (simp add: word_unat_eq_iff)
  also have "\<dots> \<longleftrightarrow> unat (toLowerAscii a) = unat (toLowerAscii c)"
    unfolding unat_canonicalize unat_toLowerAscii by (simp split: if_splits) arith
  also have "\<dots> \<longleftrightarrow> toLowerAscii a = toLowerAscii c"
    by (simp add: word_unat_eq_iff)
  finally show ?thesis .
qed

lemma sameChar_True: "sameChar True a c \<longleftrightarrow> toLowerAscii a = toLowerAscii c"
  by (simp add: sameChar_def canon_lower)

lemma list_all2_ignoreCase: "list_all2 (sameChar True) p u \<longleftrightarrow> equalIgnoreCase u p"
proof (induction p arbitrary: u)
  case Nil
  then show ?case by (auto simp: equalIgnoreCase_def)
next
  case (Cons a p)
  then show ?case
    by (cases u) (auto simp: equalIgnoreCase_def sameChar_True)
qed

lemma equalIgnoreCase_length: "equalIgnoreCase u p \<Longrightarrow> length u = length p"
  unfolding equalIgnoreCase_def by (metis length_map)

lemma startsWithIgnoreCase_iff:
  "startsWithIgnoreCase s p \<longleftrightarrow> (\<exists>u t. s = u @ t \<and> equalIgnoreCase u p)"
proof
  assume "startsWithIgnoreCase s p"
  then have "s = take (length p) s @ drop (length p) s \<and> equalIgnoreCase (take (length p) s) p"
    by (simp add: startsWithIgnoreCase_def)
  then show "\<exists>u t. s = u @ t \<and> equalIgnoreCase u p" by blast
next
  assume "\<exists>u t. s = u @ t \<and> equalIgnoreCase u p"
  then obtain u t where ut: "s = u @ t" "equalIgnoreCase u p" by blast
  then have "take (length p) s = u" using equalIgnoreCase_length [OF ut(2)] by simp
  then show "startsWithIgnoreCase s p" using ut by (simp add: startsWithIgnoreCase_def)
qed

lemma equalIgnoreCase_append:
  "equalIgnoreCase u (p @ q) \<longleftrightarrow> (\<exists>v w. u = v @ w \<and> equalIgnoreCase v p \<and> equalIgnoreCase w q)"
  unfolding equalIgnoreCase_def map_append map_eq_append_conv by fastforce

lemma litEnds_True_iff:
  "t \<in> set (litEnds True p s) \<longleftrightarrow> (\<exists>u. s = u @ t \<and> equalIgnoreCase u p)"
  by (simp add: litEnds_iff list_all2_ignoreCase)

lemma opt_char_iff:
  "t \<in> set (reps cls 0 (Some 1) s) \<longleftrightarrow> t = s \<or> (\<exists>c. s = c # t \<and> cls c)"
proof -
  have "(\<exists>u. s = u @ t \<and> list_all cls u \<and> length u \<le> 1) \<longleftrightarrow> t = s \<or> (\<exists>c. s = c # t \<and> cls c)"
    (is "?L \<longleftrightarrow> ?R")
  proof
    assume ?L
    then obtain u where u: "s = u @ t" "list_all cls u" "length u \<le> 1" by blast
    then show ?R by (cases u) auto
  next
    assume ?R
    then show ?L
    proof
      assume "t = s"
      then have "s = [] @ t \<and> list_all cls [] \<and> length ([]::jsstring) \<le> 1" by simp
      then show ?L by blast
    next
      assume "\<exists>c. s = c # t \<and> cls c"
      then obtain c where "s = c # t" "cls c" by blast
      then have "s = [c] @ t \<and> list_all cls [c] \<and> length [c] \<le> 1" by simp
      then show ?L by blast
    qed
  qed
  then show ?thesis by (simp add: reps_iff within_def)
qed

lemma equalIgnoreCase_single:
  "equalIgnoreCase u [a] \<longleftrightarrow> (\<exists>c. u = [c] \<and> sameChar True a c)"
  by (cases u) (auto simp: equalIgnoreCase_def sameChar_True)

lemma str_append: "str (a @ b) = str a @ str b"
  by (simp add: str_def)

lemma httpScheme_ends:
  "t \<in> set (ends httpScheme s) \<longleftrightarrow>
     (\<exists>u. s = u @ t \<and> (equalIgnoreCase u (str ''http://'') \<or> equalIgnoreCase u (str ''https://'')))"
proof -
  have split1: "str ''http://'' = str ''http'' @ str ''://''"
    and split2: "str ''https://'' = str ''http'' @ [of_char CHR ''s''] @ str ''://''"
    by (simp_all add: str_def)
  show ?thesis
  proof
    assume "t \<in> set (ends httpScheme s)"
    then obtain m1 m2 where m: "m1 \<in> set (litEnds True (str ''http'') s)"
      "m2 \<in> set (reps (sameChar True (of_char CHR ''s'')) 0 (Some 1) m1)"
      "t \<in> set (litEnds True (str ''://'') m2)"
      unfolding httpScheme_def ends_Seq_iff ends.simps(1,2) by blast
    from m(1) obtain u1 where u1: "s = u1 @ m1" "equalIgnoreCase u1 (str ''http'')"
      by (auto simp: litEnds_True_iff)
    from m(3) obtain u3 where u3: "m2 = u3 @ t" "equalIgnoreCase u3 (str ''://'')"
      by (auto simp: litEnds_True_iff)
    from m(2) have "m2 = m1 \<or> (\<exists>c. m1 = c # m2 \<and> sameChar True (of_char CHR ''s'') c)"
      by (simp only: opt_char_iff)
    then consider "m2 = m1" | c where "m1 = c # m2" "sameChar True (of_char CHR ''s'') c"
      by blast
    then show "\<exists>u. s = u @ t \<and> (equalIgnoreCase u (str ''http://'') \<or> equalIgnoreCase u (str ''https://''))"
    proof cases
      case 1
      then have "s = (u1 @ u3) @ t" using u1 u3 by simp
      moreover have "equalIgnoreCase (u1 @ u3) (str ''http://'')"
        unfolding split1 equalIgnoreCase_append using u1 u3 by blast
      ultimately show ?thesis by blast
    next
      case 2
      then have "s = (u1 @ [c] @ u3) @ t" using u1 u3 by simp
      moreover have "equalIgnoreCase [c] [of_char CHR ''s'']"
        using 2 by (simp add: equalIgnoreCase_single)
      then have "equalIgnoreCase (u1 @ [c] @ u3) (str ''https://'')"
        unfolding split2 equalIgnoreCase_append using u1 u3 by blast
      ultimately show ?thesis by blast
    qed
  next
    assume "\<exists>u. s = u @ t \<and> (equalIgnoreCase u (str ''http://'') \<or> equalIgnoreCase u (str ''https://''))"
    then obtain u where u: "s = u @ t"
      "equalIgnoreCase u (str ''http://'') \<or> equalIgnoreCase u (str ''https://'')" by blast
    from u(2) show "t \<in> set (ends httpScheme s)"
    proof
      assume "equalIgnoreCase u (str ''http://'')"
      then obtain u1 u3 where p: "u = u1 @ u3" "equalIgnoreCase u1 (str ''http'')"
        "equalIgnoreCase u3 (str ''://'')"
        unfolding split1 equalIgnoreCase_append by blast
      have "u3 @ t \<in> set (litEnds True (str ''http'') s)"
        using u p by (auto simp: litEnds_True_iff)
      moreover have "u3 @ t \<in> set (reps (sameChar True (of_char CHR ''s'')) 0 (Some 1) (u3 @ t))"
        by (simp only: opt_char_iff) simp
      moreover have "t \<in> set (litEnds True (str ''://'') (u3 @ t))"
        using p by (auto simp: litEnds_True_iff)
      ultimately show ?thesis
        unfolding httpScheme_def ends_Seq_iff ends.simps(1,2) by blast
    next
      assume "equalIgnoreCase u (str ''https://'')"
      then obtain u1 u2 u3 where p: "u = u1 @ u2 @ u3" "equalIgnoreCase u1 (str ''http'')"
        "equalIgnoreCase u2 [of_char CHR ''s'']" "equalIgnoreCase u3 (str ''://'')"
        unfolding split2 equalIgnoreCase_append by blast
      from p(3) obtain c where c: "u2 = [c]" "sameChar True (of_char CHR ''s'') c"
        by (auto simp: equalIgnoreCase_single)
      have "c # u3 @ t \<in> set (litEnds True (str ''http'') s)"
        using u p c by (auto simp: litEnds_True_iff)
      moreover have "u3 @ t \<in> set (reps (sameChar True (of_char CHR ''s'')) 0 (Some 1) (c # u3 @ t))"
        using c by (simp only: opt_char_iff) simp
      moreover have "t \<in> set (litEnds True (str ''://'') (u3 @ t))"
        using p by (auto simp: litEnds_True_iff)
      ultimately show ?thesis
        unfolding httpScheme_def ends_Seq_iff ends.simps(1,2) by blast
    qed
  qed
qed

lemma matchStart_httpScheme:
  "matchStart httpScheme s \<longleftrightarrow>
     startsWithIgnoreCase s (str ''http://'') \<or> startsWithIgnoreCase s (str ''https://'')"
proof -
  have "matchStart httpScheme s \<longleftrightarrow> (\<exists>t. t \<in> set (ends httpScheme s))"
    unfolding matchStart_def by (cases "ends httpScheme s") auto
  then show ?thesis
    unfolding httpScheme_ends startsWithIgnoreCase_iff by blast
qed

lemma matchStart_iff: "matchStart r s \<longleftrightarrow> (\<exists>t. t \<in> set (ends r s))"
  unfolding matchStart_def by (cases "ends r s") auto

lemma ends_Alt_iff:
  "t \<in> set (ends (Alt a b) s) \<longleftrightarrow> t \<in> set (ends a s) \<or> t \<in> set (ends b s)"
  by simp

lemma matchStart_urlStart: "matchStart urlStart s \<longleftrightarrow> looksLikeUrl s"
  unfolding matchStart_iff urlStart_def ends_Alt_iff ends.simps(1) httpScheme_ends litEnds_True_iff
    looksLikeUrl_def startsWithIgnoreCase_iff
  by blast

lemma lit1_iff: "t \<in> set (litEnds False (str [a]) s) \<longleftrightarrow> s = of_char a # t"
  by (cases s) (auto simp: str_def sameChar_def)

lemma plus_iff:
  "t \<in> set (reps cls 1 None s) \<longleftrightarrow> (\<exists>u. s = u @ t \<and> u \<noteq> [] \<and> list_all cls u)"
proof -
  have "1 \<le> length u \<longleftrightarrow> u \<noteq> []" for u :: jsstring by (cases u) auto
  then show ?thesis by (auto simp: reps_iff within_def)
qed

lemma matchAll_emailShape: "matchAll emailShape s \<longleftrightarrow> looksLikeEmail s"
proof
  assume "matchAll emailShape s"
  then obtain m1 m2 m3 m4 where m:
    "m1 \<in> set (reps notSpaceAt 1 None s)"
    "m2 \<in> set (litEnds False (str ''@'') m1)"
    "m3 \<in> set (reps notSpaceAt 1 None m2)"
    "m4 \<in> set (litEnds False (str ''.'') m3)"
    "[] \<in> set (reps notSpaceAt 1 None m4)"
    unfolding matchAll_def emailShape_def ends_Seq_iff ends.simps(1,2) by blast
  from m(1) obtain u1 where u1: "s = u1 @ m1" "u1 \<noteq> []" "list_all notSpaceAt u1"
    unfolding plus_iff by blast
  from m(3) obtain u3 where u3: "m2 = u3 @ m3" "u3 \<noteq> []" "list_all notSpaceAt u3"
    unfolding plus_iff by blast
  from m(5) have u5: "m4 \<noteq> []" "list_all notSpaceAt m4"
    unfolding plus_iff by auto
  from m(2) have a: "m1 = str ''@'' @ m2" unfolding lit1_iff by (simp add: str_def)
  from m(4) have d: "m3 = str ''.'' @ m4" unfolding lit1_iff by (simp add: str_def)
  have "s = u1 @ str ''@'' @ u3 @ str ''.'' @ m4" using u1 u3 a d by simp
  then show "looksLikeEmail s" unfolding looksLikeEmail_def using u1 u3 u5 by blast
next
  assume "looksLikeEmail s"
  then obtain l d t where e: "s = l @ str ''@'' @ d @ str ''.'' @ t" "l \<noteq> []" "d \<noteq> []" "t \<noteq> []"
    "list_all notSpaceAt l" "list_all notSpaceAt d" "list_all notSpaceAt t"
    unfolding looksLikeEmail_def by blast
  have "str ''@'' @ d @ str ''.'' @ t \<in> set (reps notSpaceAt 1 None s)"
    unfolding plus_iff using e by blast
  moreover have "d @ str ''.'' @ t \<in> set (litEnds False (str ''@'') (str ''@'' @ d @ str ''.'' @ t))"
    unfolding lit1_iff by (simp add: str_def)
  moreover have "str ''.'' @ t \<in> set (reps notSpaceAt 1 None (d @ str ''.'' @ t))"
    unfolding plus_iff using e by blast
  moreover have "t \<in> set (litEnds False (str ''.'') (str ''.'' @ t))"
    unfolding lit1_iff by (simp add: str_def)
  moreover have "[] \<in> set (reps notSpaceAt 1 None t)"
    unfolding plus_iff using e by simp
  ultimately show "matchAll emailShape s"
    unfolding matchAll_def emailShape_def ends_Seq_iff ends.simps(1,2) by blast
qed

lemma matchAll_phoneShape: "matchAll phoneShape s \<longleftrightarrow> looksLikePhone s"
proof
  assume "matchAll phoneShape s"
  then obtain m where m: "m \<in> set (reps (isChar CHR ''+'') 0 (Some 1) s)"
    "[] \<in> set (reps phoneChar 8 (Some 20) m)"
    unfolding matchAll_def phoneShape_def ends_Seq_iff ends.simps(1,2) by blast
  from m(2) have body: "8 \<le> length m" "length m \<le> 20" "list_all phoneChar m"
    unfolding reps_iff within_def by auto
  from m(1) have "m = s \<or> (\<exists>c. s = c # m \<and> isChar CHR ''+'' c)"
    by (simp only: opt_char_iff)
  then have "s = [] @ m \<or> s = str ''+'' @ m" by (auto simp: isChar_def str_def)
  then show "looksLikePhone s" unfolding looksLikePhone_def using body by blast
next
  assume "looksLikePhone s"
  then obtain sign body where p: "s = sign @ body" "sign = [] \<or> sign = str ''+''"
    "8 \<le> length body" "length body \<le> 20" "list_all phoneChar body"
    unfolding looksLikePhone_def by blast
  have "body = s \<or> (\<exists>c. s = c # body \<and> isChar CHR ''+'' c)"
    using p(1,2) by (auto simp: isChar_def str_def)
  then have "body \<in> set (reps (isChar CHR ''+'') 0 (Some 1) s)"
    by (simp only: opt_char_iff)
  moreover have "[] \<in> set (reps phoneChar 8 (Some 20) body)"
    unfolding reps_iff within_def using p by simp
  ultimately show "matchAll phoneShape s"
    unfolding matchAll_def phoneShape_def ends_Seq_iff ends.simps(1,2) by blast
qed

lemma startsWith_iff: "startsWith s p \<longleftrightarrow> (\<exists>r. s = p @ r)"
proof
  assume "startsWith s p"
  then have "s = p @ drop (length p) s"
    unfolding startsWith_def by (metis append_take_drop_id)
  then show "\<exists>r. s = p @ r" ..
next
  assume "\<exists>r. s = p @ r"
  then show "startsWith s p" by (auto simp: startsWith_def)
qed

lemma endsWith_iff: "endsWith s p \<longleftrightarrow> (\<exists>r. s = r @ p)"
proof
  assume "endsWith s p"
  then have "s = take (length s - length p) s @ p"
    unfolding endsWith_def by (metis append_take_drop_id)
  then show "\<exists>r. s = r @ p" ..
next
  assume "\<exists>r. s = r @ p"
  then show "endsWith s p" by (auto simp: endsWith_def)
qed

lemma includesStr_iff: "includesStr s p \<longleftrightarrow> (\<exists>a b. s = a @ p @ b)"
proof (induction s)
  case Nil
  then show ?case by auto
next
  case (Cons c s)
  show ?case
  proof
    assume "includesStr (c # s) p"
    then consider "startsWith (c # s) p" | "includesStr s p" by auto
    then show "\<exists>a b. c # s = a @ p @ b"
    proof cases
      case 1
      then obtain r where "c # s = [] @ p @ r" unfolding startsWith_iff by auto
      then show ?thesis by blast
    next
      case 2
      then obtain a b where "s = a @ p @ b" using Cons.IH by blast
      then have "c # s = (c # a) @ p @ b" by simp
      then show ?thesis by blast
    qed
  next
    assume "\<exists>a b. c # s = a @ p @ b"
    then obtain a b where ab: "c # s = a @ p @ b" by blast
    show "includesStr (c # s) p"
    proof (cases a)
      case Nil
      then have "startsWith (c # s) p" unfolding startsWith_iff using ab by auto
      then show ?thesis by simp
    next
      case (Cons x a')
      then have "s = a' @ p @ b" using ab by simp
      then have "includesStr s p" using Cons.IH by blast
      then show ?thesis by simp
    qed
  qed
qed

lemma detect_refines:
  "detectContentType s =
     (if looksLikeUrl s then Url
      else if looksLikeEmail s then Email
      else if looksLikePhone s then Phone
      else if looksLikeWifi s then Wifi
      else Text)"
  unfolding detectContentType_def matchStart_urlStart matchAll_emailShape matchAll_phoneShape
    looksLikeWifi_def startsWith_iff endsWith_iff includesStr_iff
  by simp

section \<open>The formatter: schemes and prefixes\<close>

lemmas char_class_defs =
  isDigit_def isAsciiUpper_def isAsciiLower_def isWhiteSpace_def canonicalize_def sameChar_def
  isChar_def notSpaceAt_def phoneChar_def toLowerAscii_def

lemmas regex_defs =
  httpScheme_def urlStart_def emailShape_def phoneShape_def matchStart_def matchAll_def

lemma startsWith_append: "startsWith (p @ s) p"
  by (simp add: startsWith_def)

text \<open>
  C4, amended. In the later copy of the component (lines 1013 to 1039, and the
  unnamed copy, which has the same text), for every string \<open>s\<close> the \<open>email\<close>,
  \<open>phone\<close> and \<open>sms\<close> rules put \<open>mailto:\<close>, \<open>tel:\<close> and \<open>sms:\<close> in front of \<open>s\<close>
  whatever \<open>s\<close> begins with, so the \<open>email\<close> rule applied twice gives
  \<open>mailto:mailto:\<close> followed by \<open>s\<close>, which differs from one application: that
  formatter is not idempotent. The earlier copy (lines 52 to 72) has no \<open>sms\<close>
  rule; its \<open>email\<close> and \<open>phone\<close> rules return \<open>s\<close> unchanged when \<open>s\<close> starts with
  \<open>mailto:\<close> or \<open>tel:\<close> and put the prefix in front of it otherwise, so that they
  are idempotent.
\<close>

theorem prefix_unconditional:
  "formatContentByType N s Email = str ''mailto:'' @ s
   \<and> formatContentByType N s Phone = str ''tel:'' @ s
   \<and> formatContentByType N s Sms = str ''sms:'' @ s
   \<and> formatContentByType N (formatContentByType N s Email) Email = str ''mailto:mailto:'' @ s
   \<and> formatContentByType N (formatContentByType N s Email) Email \<noteq> formatContentByType N s Email
   \<and> formatContentByType N (formatContentByType N s Phone) Phone \<noteq> formatContentByType N s Phone
   \<and> formatContentByType N (formatContentByType N s Sms) Sms \<noteq> formatContentByType N s Sms
   \<and> formatContentByType_earlier J s EarlierEmail
       = (if startsWith s (str ''mailto:'') then s else str ''mailto:'' @ s)
   \<and> formatContentByType_earlier J s EarlierPhone
       = (if startsWith s (str ''tel:'') then s else str ''tel:'' @ s)
   \<and> formatContentByType_earlier J (formatContentByType_earlier J s EarlierEmail) EarlierEmail
       = formatContentByType_earlier J s EarlierEmail
   \<and> formatContentByType_earlier J (formatContentByType_earlier J s EarlierPhone) EarlierPhone
       = formatContentByType_earlier J s EarlierPhone"
proof -
  have later: "formatContentByType N s Email = str ''mailto:'' @ s
   \<and> formatContentByType N s Phone = str ''tel:'' @ s
   \<and> formatContentByType N s Sms = str ''sms:'' @ s
   \<and> formatContentByType N (formatContentByType N s Email) Email = str ''mailto:mailto:'' @ s
   \<and> formatContentByType N (formatContentByType N s Email) Email \<noteq> formatContentByType N s Email
   \<and> formatContentByType N (formatContentByType N s Phone) Phone \<noteq> formatContentByType N s Phone
   \<and> formatContentByType N (formatContentByType N s Sms) Sms \<noteq> formatContentByType N s Sms"
    by (simp add: str_def)
  have email: "formatContentByType_earlier J (formatContentByType_earlier J s EarlierEmail) EarlierEmail
       = formatContentByType_earlier J s EarlierEmail"
    using startsWith_append [of "str ''mailto:''" s] by simp
  have phone: "formatContentByType_earlier J (formatContentByType_earlier J s EarlierPhone) EarlierPhone
       = formatContentByType_earlier J s EarlierPhone"
    using startsWith_append [of "str ''tel:''" s] by simp
  show ?thesis using later email phone by simp
qed

theorem prefix_unconditional_witness:
  "formatContentByType asWritten (str ''mailto:a@b.c'') Email = str ''mailto:mailto:a@b.c''
   \<and> formatContentByType asWritten (str ''tel:123'') Phone = str ''tel:tel:123''
   \<and> formatContentByType asWritten (str ''sms:123'') Sms = str ''sms:sms:123''
   \<and> startsWith (str ''tel:123'') (str ''tel:'')
   \<and> formatContentByType_earlier noStringify (str ''tel:123'') EarlierPhone = str ''tel:123''
   \<and> \<not> startsWith (str ''a@b.c'') (str ''mailto:'')
   \<and> formatContentByType_earlier noStringify (str ''a@b.c'') EarlierEmail = str ''mailto:a@b.c''"
proof -
  have yes: "startsWith (str ''tel:123'') (str ''tel:'')"
    by (simp add: startsWith_def str_def)
  have no: "\<not> startsWith (str ''a@b.c'') (str ''mailto:'')"
    by (simp add: startsWith_def str_def)
  show ?thesis
    using yes no prefix_unconditional [of asWritten "str ''mailto:a@b.c''"]
      prefix_unconditional [of asWritten "str ''tel:123''" noStringify]
      prefix_unconditional [of asWritten "str ''sms:123''"]
      prefix_unconditional [of asWritten "str ''a@b.c''" noStringify]
    by (simp add: str_def)
qed

text \<open>
  The claim as first stated fails on the earlier copy: a content that starts with
  \<open>mailto:\<close> comes back as it is, so the \<open>email\<close> rule applied twice to \<open>a@b.c\<close>
  gives \<open>mailto:a@b.c\<close>, not \<open>mailto:mailto:a@b.c\<close>.
\<close>

theorem prefix_unconditional_counterexample:
  "formatContentByType_earlier noStringify (str ''mailto:a@b.c'') EarlierEmail = str ''mailto:a@b.c''
   \<and> formatContentByType_earlier noStringify (str ''mailto:a@b.c'') EarlierEmail
       \<noteq> str ''mailto:'' @ str ''mailto:a@b.c''
   \<and> formatContentByType_earlier noStringify
         (formatContentByType_earlier noStringify (str ''a@b.c'') EarlierEmail) EarlierEmail
       = str ''mailto:a@b.c''
   \<and> formatContentByType_earlier noStringify
         (formatContentByType_earlier noStringify (str ''a@b.c'') EarlierEmail) EarlierEmail
       \<noteq> str ''mailto:mailto:'' @ str ''a@b.c''"
  by (simp add: startsWith_def str_def)

text \<open>
  C2. For every string \<open>s\<close> that starts with \<open>http://\<close> or \<open>https://\<close>, letters
  compared without regard to case, the \<open>url\<close> rule returns \<open>s\<close> unchanged; for every
  other string it returns \<open>https://\<close> followed by \<open>s\<close>.
\<close>

theorem url_scheme_added_once:
  "(startsWithIgnoreCase s (str ''http://'') \<or> startsWithIgnoreCase s (str ''https://'')
      \<longrightarrow> formatContentByType N s Url = s)
   \<and> (\<not> (startsWithIgnoreCase s (str ''http://'') \<or> startsWithIgnoreCase s (str ''https://''))
      \<longrightarrow> formatContentByType N s Url = str ''https://'' @ s)"
  by (simp add: matchStart_httpScheme)

theorem url_scheme_added_once_witness:
  "startsWithIgnoreCase (str ''HTTPS://a.b'') (str ''https://'')
   \<and> formatContentByType asWritten (str ''HTTPS://a.b'') Url = str ''HTTPS://a.b''
   \<and> \<not> (startsWithIgnoreCase (str ''ftp://a.b'') (str ''http://'')
         \<or> startsWithIgnoreCase (str ''ftp://a.b'') (str ''https://''))
   \<and> formatContentByType asWritten (str ''ftp://a.b'') Url = str ''https://ftp://a.b''"
proof -
  have yes: "startsWithIgnoreCase (str ''HTTPS://a.b'') (str ''https://'')"
    by (simp add: startsWithIgnoreCase_def equalIgnoreCase_def str_def char_class_defs)
  have no: "\<not> (startsWithIgnoreCase (str ''ftp://a.b'') (str ''http://'')
         \<or> startsWithIgnoreCase (str ''ftp://a.b'') (str ''https://''))"
    by (simp add: startsWithIgnoreCase_def equalIgnoreCase_def str_def char_class_defs)
  show ?thesis
    using yes no url_scheme_added_once [of "str ''HTTPS://a.b''" asWritten]
      url_scheme_added_once [of "str ''ftp://a.b''" asWritten]
    by (simp add: str_def)
qed

section \<open>The detector\<close>

text \<open>
  C5. For every string \<open>s\<close> the detector applies its checks in a fixed order and
  the first that holds decides: \<open>url\<close> when \<open>s\<close> starts with \<open>http://\<close>, \<open>https://\<close> or
  \<open>www.\<close> in any case; else \<open>email\<close> when \<open>s\<close> is \<open>local@domain.tld\<close> with no white
  space, no further \<open>@\<close> and no empty part; else \<open>phone\<close> when \<open>s\<close> is an optional
  \<open>+\<close> and then 8 to 20 digits, spaces, parentheses and hyphens; else \<open>wifi\<close> when
  \<open>s\<close> starts with an opening brace, ends with a closing brace and contains \<open>ssid\<close>;
  else \<open>text\<close>. The four examples of the specification come out as it says.
\<close>

theorem detect_first_match:
  "detectContentType s =
     (if looksLikeUrl s then Url
      else if looksLikeEmail s then Email
      else if looksLikePhone s then Phone
      else if looksLikeWifi s then Wifi
      else Text)
   \<and> detectContentType (str ''user@example.com'') = Email
   \<and> detectContentType (str ''https://example.com'') = Url
   \<and> detectContentType (str ''+1 (555) 123-4567'') = Phone
   \<and> detectContentType (str ''hello world'') = Text"
proof -
  have "detectContentType (str ''user@example.com'') = Email"
    by (simp add: char_class_defs regex_defs detectContentType_def str_def)
  moreover have "detectContentType (str ''https://example.com'') = Url"
    by (simp add: char_class_defs regex_defs detectContentType_def str_def)
  moreover have "detectContentType (str ''+1 (555) 123-4567'') = Phone"
    by (simp add: char_class_defs regex_defs detectContentType_def str_def)
  moreover have "detectContentType (str ''hello world'') = Text"
    by (simp add: char_class_defs regex_defs detectContentType_def str_def startsWith_def endsWith_def)
  ultimately show ?thesis using detect_refines [of s] by simp
qed

theorem detect_first_match_witness:
  "looksLikeUrl (str ''www.example.com'') \<and> detectContentType (str ''www.example.com'') = Url
   \<and> \<not> looksLikeUrl (str ''{\"ssid\":\"Home\"}'') \<and> detectContentType (str ''{\"ssid\":\"Home\"}'') = Wifi"
proof -
  have u: "looksLikeUrl (str ''www.example.com'')"
    by (simp add: looksLikeUrl_def startsWithIgnoreCase_def equalIgnoreCase_def str_def char_class_defs)
  have n: "\<not> looksLikeUrl (str ''{\"ssid\":\"Home\"}'')"
    by (simp add: looksLikeUrl_def startsWithIgnoreCase_def equalIgnoreCase_def str_def char_class_defs)
  have w: "detectContentType (str ''{\"ssid\":\"Home\"}'') = Wifi"
    by (simp add: char_class_defs regex_defs detectContentType_def str_def startsWith_def endsWith_def)
  show ?thesis
    using u n w detect_first_match [of "str ''www.example.com''"] by simp
qed

section \<open>The parser consumes its input\<close>

text \<open>
  Every parsing function that succeeds leaves a rest shorter than its input.
  Hence the length tests in \<open>parse_elements\<close> and \<open>parse_members\<close> never fail, and
  both functions satisfy the equations without them.
\<close>

lemma skipWs_length: "length (skipWs s) \<le> length s"
  by (simp add: skipWs_def length_dropWhile_le)

lemma skipWs_Cons_length: "skipWs r = d # ds \<Longrightarrow> length ds < length r"
  using skipWs_length [of r] by simp

lemma consChar_Some:
  "consChar c x = Some (t, r) \<longleftrightarrow> (\<exists>t'. x = Some (t', r) \<and> t = c # t')"
  by (cases x) (auto simp: consChar_def)

lemma parse_string_shorter: "parse_string s = Some (t, r) \<Longrightarrow> length r < length s"
proof (induction "length s" arbitrary: s t r rule: less_induct)
  case less
  show ?case
  proof (cases s)
    case Nil
    then show ?thesis using less.prems by simp
  next
    case (Cons c cs)
    have IH: "length r' < length s'" if "parse_string s' = Some (t', r')" "length s' \<le> length cs"
      for s' t' r'
      using less.hyps [of s' t' r'] that Cons by simp
    show ?thesis
      using less.prems unfolding Cons
      by (auto simp: consChar_Some split: if_splits list.splits option.splits dest!: IH)
  qed
qed

lemma digitsOf_length: "digitsOf s = (ds, r) \<Longrightarrow> length r \<le> length s"
  by (auto simp: digitsOf_def length_dropWhile_le)

lemma parse_int_shorter: "parse_int s = Some (l, r) \<Longrightarrow> length r < length s"
proof (cases s)
  case Nil
  then show "parse_int s = Some (l, r) \<Longrightarrow> ?thesis" by (simp add: parse_int_def)
next
  case (Cons d ds)
  have "length (dropWhile isDigit ds) \<le> length ds" by (rule length_dropWhile_le)
  then show "parse_int s = Some (l, r) \<Longrightarrow> ?thesis"
    unfolding Cons by (auto simp: parse_int_def digitsOf_def split: if_splits)
qed

lemma parse_frac_length: "parse_frac s = Some (l, r) \<Longrightarrow> length r \<le> length s"
proof (cases s)
  case Nil
  then show "parse_frac s = Some (l, r) \<Longrightarrow> ?thesis" by (simp add: parse_frac_def)
next
  case (Cons p ps)
  have "length (dropWhile isDigit ps) \<le> length ps" by (rule length_dropWhile_le)
  then show "parse_frac s = Some (l, r) \<Longrightarrow> ?thesis"
    unfolding Cons by (auto simp: parse_frac_def digitsOf_def split: if_splits)
qed

lemma parse_exp_length: "parse_exp s = Some (l, r) \<Longrightarrow> length r \<le> length s"
proof (cases s)
  case Nil
  then show "parse_exp s = Some (l, r) \<Longrightarrow> ?thesis" by (simp add: parse_exp_def)
next
  case (Cons e es)
  have a: "length (dropWhile isDigit es) \<le> length es" by (rule length_dropWhile_le)
  have b: "length (dropWhile isDigit gs) \<le> length gs" for gs by (rule length_dropWhile_le)
  show "parse_exp s = Some (l, r) \<Longrightarrow> ?thesis"
    unfolding Cons using a b [of "tl es"]
    by (cases es) (auto simp: parse_exp_def digitsOf_def split: if_splits)
qed

lemma parse_number_shorter: "parse_number s = Some (l, r) \<Longrightarrow> length r < length s"
proof -
  assume p: "parse_number s = Some (l, r)"
  obtain sign s1 where s1: "(case s of [] \<Rightarrow> ([], s)
      | m # ms \<Rightarrow> if m = of_char CHR ''-'' then ([m], ms) else ([], s)) = (sign, s1)"
    by (cases "(case s of [] \<Rightarrow> ([], s) | m # ms \<Rightarrow> if m = of_char CHR ''-'' then ([m], ms) else ([], s))")
  then have l1: "length s1 \<le> length s" by (cases s) (auto split: if_splits)
  from p s1 obtain ip s2 fp s3 ep where
    "parse_int s1 = Some (ip, s2)" "parse_frac s2 = Some (fp, s3)" "parse_exp s3 = Some (ep, r)"
    by (auto simp: parse_number_def split: Option.bind_splits)
  then have "length s2 < length s1" "length s3 \<le> length s2" "length r \<le> length s3"
    by (auto dest: parse_int_shorter parse_frac_length parse_exp_length)
  then show ?thesis using l1 by simp
qed

lemma parse_shorter:
  "(\<forall>v r. parse_value s = Some (v, r) \<longrightarrow> length r < length s)
   \<and> (\<forall>vs r. parse_elements s = Some (vs, r) \<longrightarrow> length r < length s)
   \<and> (\<forall>ms r. parse_members s = Some (ms, r) \<longrightarrow> length r < length s)"
proof (induction "length s" arbitrary: s rule: less_induct)
  case less
  have IHv: "length r < length s'" if "parse_value s' = Some (v, r)" "length s' < length s" for s' v r
    using less [of s'] that by blast
  have IHe: "length r < length s'" if "parse_elements s' = Some (v, r)" "length s' < length s" for s' v r
    using less [of s'] that by blast
  have IHm: "length r < length s'" if "parse_members s' = Some (v, r)" "length s' < length s" for s' v r
    using less [of s'] that by blast
  have v: "length r < length s" if pv: "parse_value s = Some (v, r)" for v r
  proof (cases s)
    case Nil
    then show ?thesis using pv by simp
  next
    case (Cons c cs)
    have cs: "length cs < length s" using Cons by simp
    have ws: "length (drop 1 (skipWs cs)) < length s"
      using skipWs_length [of cs] Cons by simp
    note sub = IHv [OF _ cs] IHe [OF _ cs] IHm [OF _ cs]
    show ?thesis
      using pv ws unfolding Cons
      supply parse_elements.simps [simp del] parse_members.simps [simp del]
      by (auto split: if_splits dest!: sub parse_string_shorter parse_number_shorter)
  qed
  have e: "length r < length s" if pe: "parse_elements s = Some (vs, r)" for vs r
  proof -
    from pe obtain v r1 where v1: "parse_value s = Some (v, r1)"
      by (subst (asm) parse_elements.simps) (auto split: option.splits)
    then have r1: "length r1 < length s" by (rule v)
    from pe v1 obtain d ds where d: "skipWs r1 = d # ds"
      by (subst (asm) parse_elements.simps) (auto split: option.splits list.splits)
    then have ds: "length ds < length s" using skipWs_Cons_length [OF d] r1 by simp
    from pe v1 d consider "r = ds" | vs' where "parse_elements ds = Some (vs', r)"
      by (subst (asm) parse_elements.simps) (auto split: if_splits)
    then show ?thesis
    proof cases
      case 1
      then show ?thesis using ds by simp
    next
      case 2
      then show ?thesis using IHe [OF _ ds] ds by fastforce
    qed
  qed
  have m: "length r < length s" if pm: "parse_members s = Some (ms, r)" for ms r
  proof -
    from pm obtain q ks where q: "skipWs s = q # ks"
      by (subst (asm) parse_members.simps) (auto split: list.splits)
    from pm q obtain k r0 where k: "parse_string ks = Some (k, r0)"
      by (subst (asm) parse_members.simps) (auto split: option.splits if_splits)
    from pm q k obtain p vs where p: "skipWs r0 = p # vs"
      by (subst (asm) parse_members.simps) (auto split: list.splits if_splits)
    have l0: "length vs < length s"
      using skipWs_Cons_length [OF q] parse_string_shorter [OF k] skipWs_Cons_length [OF p] by simp
    from pm q k p obtain v r1 where v1: "parse_value vs = Some (v, r1)"
      by (subst (asm) parse_members.simps) (auto split: option.splits if_splits)
    have r1: "length r1 < length vs" using IHv [OF v1 l0] .
    from pm q k p v1 obtain d ds where d: "skipWs r1 = d # ds"
      by (subst (asm) parse_members.simps) (auto split: list.splits if_splits)
    have ds: "length ds < length s" using skipWs_Cons_length [OF d] r1 l0 by simp
    from pm q k p v1 d consider "r = ds" | ms' where "parse_members ds = Some (ms', r)"
      by (subst (asm) parse_members.simps) (auto split: if_splits)
    then show ?thesis
    proof cases
      case 1
      then show ?thesis using ds by simp
    next
      case 2
      then show ?thesis using IHm [OF _ ds] ds by fastforce
    qed
  qed
  show ?case using v e m by blast
qed

lemma parse_elements_plain:
  "parse_elements s =
     (case parse_value s of
        None \<Rightarrow> None
      | Some (v, r) \<Rightarrow>
          (case skipWs r of
             [] \<Rightarrow> None
           | d # ds \<Rightarrow>
               if d = of_char CHR '','' then map_option (apfst (Cons v)) (parse_elements ds)
               else if d = of_char CHR '']'' then Some ([v], ds)
               else None))"
proof (cases "parse_value s")
  case None
  then show ?thesis by (subst parse_elements.simps) simp
next
  case (Some a)
  obtain v r where a: "a = (v, r)" by (cases a)
  have r: "length r < length s" using parse_shorter [of s] Some a by blast
  show ?thesis
  proof (cases "skipWs r")
    case Nil
    then show ?thesis using Some a by (subst parse_elements.simps) simp
  next
    case (Cons d ds)
    then have "length ds < length s" using skipWs_Cons_length [OF Cons] r by simp
    then show ?thesis using Some a Cons by (subst parse_elements.simps) simp
  qed
qed

lemma parse_members_plain:
  "parse_members s =
     (case skipWs s of
        [] \<Rightarrow> None
      | q # ks \<Rightarrow>
          if q = 0x22 then
            (case parse_string ks of
               None \<Rightarrow> None
             | Some (k, r) \<Rightarrow>
                 (case skipWs r of
                    [] \<Rightarrow> None
                  | p # vs \<Rightarrow>
                      if p = of_char CHR '':'' then
                        (case parse_value vs of
                           None \<Rightarrow> None
                         | Some (v, r') \<Rightarrow>
                             (case skipWs r' of
                                [] \<Rightarrow> None
                              | d # ds \<Rightarrow>
                                  if d = of_char CHR '','' then
                                    map_option (apfst (Cons (k, v))) (parse_members ds)
                                  else if d = of_char CHR ''}'' then Some ([(k, v)], ds)
                                  else None))
                      else None))
          else None)"
proof (cases "skipWs s")
  case Nil
  then show ?thesis by (subst parse_members.simps) simp
next
  case q: (Cons q ks)
  show ?thesis
  proof (cases "parse_string ks")
    case None
    then show ?thesis using q by (subst parse_members.simps) simp
  next
    case (Some a)
    obtain k r where a: "a = (k, r)" by (cases a)
    have r: "length r < length ks" using parse_string_shorter Some a by blast
    show ?thesis
    proof (cases "skipWs r")
      case Nil
      then show ?thesis using q Some a by (subst parse_members.simps) simp
    next
      case p: (Cons p vs)
      have vs: "length vs < length s"
        using skipWs_Cons_length [OF q] r skipWs_Cons_length [OF p] by simp
      show ?thesis
      proof (cases "parse_value vs")
        case None
        then show ?thesis using q Some a p by (subst parse_members.simps) simp
      next
        case v: (Some b)
        obtain v r' where b: "b = (v, r')" by (cases b)
        have r': "length r' < length vs" using parse_shorter [of vs] v b by blast
        show ?thesis
        proof (cases "skipWs r'")
          case Nil
          then show ?thesis using q Some a p v b by (subst parse_members.simps) simp
        next
          case d: (Cons d ds)
          have "length ds < length s" using skipWs_Cons_length [OF d] r' vs by simp
          then show ?thesis using q Some a p v b d vs by (subst parse_members.simps) simp
        qed
      qed
    qed
  qed
qed

section \<open>The \<open>wifi\<close> rule\<close>

lemma those_map_Some:
  "(\<And>x. x \<in> set xs \<Longrightarrow> f x = Some (g x)) \<Longrightarrow> those (map f xs) = Some (map g xs)"
  by (induction xs) auto

lemma those_map_None:
  "x \<in> set xs \<Longrightarrow> f x = None \<Longrightarrow> those (map f xs) = None"
  by (induction xs) (auto split: option.splits)

lemma getOwn_None_iff: "getOwn ms k = None \<longleftrightarrow> k \<notin> fst ` set ms"
  by (simp add: getOwn_def map_of_eq_None_iff)

lemma ToString_total:
  "ToString N v = (if throwsOnToString N v then None else Some (render N v))"
proof (induction v)
  case (JArray vs)
  show ?case
  proof (cases "rangeError N (JArray vs)")
    case True
    then show ?thesis by simp
  next
    case stack: False
    show ?thesis
    proof (cases "list_ex (throwsOnToString N) vs")
      case True
      then obtain x where x: "x \<in> set vs" "throwsOnToString N x" by (auto simp: list_ex_iff)
      then have "x \<noteq> JNull" by auto
      then have "(\<lambda>v. if v = JNull then Some [] else ToString N v) x = None"
        using JArray [OF x(1)] x(2) by simp
      then have "those (map (\<lambda>v. if v = JNull then Some [] else ToString N v) vs) = None"
        using x(1) by (rule those_map_None [rotated])
      then show ?thesis using True by simp
    next
      case False
      then have "\<And>x. x \<in> set vs \<Longrightarrow>
          (if x = JNull then Some [] else ToString N x) = Some (if x = JNull then [] else render N x)"
        using JArray by (auto simp: list_ex_iff)
      then have "those (map (\<lambda>v. if v = JNull then Some [] else ToString N v) vs)
          = Some (map (\<lambda>v. if v = JNull then [] else render N v) vs)"
        by (rule those_map_Some)
      then show ?thesis using False stack by simp
    qed
  qed
next
  case (JObject ms)
  then show ?case by (simp add: getOwn_None_iff)
qed simp_all

lemma getProp_member: "getProp v k = (if v = JNull then None else Some (member v k))"
  by (cases v) (simp_all add: getProp_def member_def)

lemma orDefault_member:
  "orDefault N (member v k) d = (if fieldThrows N v k then None else Some (fieldText N v k d))"
  by (simp add: orDefault_def fieldThrows_def fieldText_def ToString_total split: option.splits)

lemma wifiString_cases:
  "wifiString N s =
     (case JSON_parse s of
        None \<Rightarrow> None
      | Some v \<Rightarrow>
          if v = JNull \<or> fieldThrows N v (str ''encryption'') \<or> fieldThrows N v (str ''ssid'')
             \<or> fieldThrows N v (str ''password'')
          then None else Some (wifiText N v))"
  by (simp add: wifiString_def getProp_member orDefault_member wifiText_def split: option.splits)

lemmas parse_defs =
  JSON_parse_def skipWs_def isJsonWs_def startsWith_def consChar_def escapeChar_def hexValue_def
  parse_number_def parse_int_def parse_frac_def parse_exp_def digitsOf_def isDigit_def

lemmas wifi_defs = wifiString_def getProp_def getOwn_def orDefault_def

lemma format_wifi_cases:
  "formatContentByType N s Wifi =
     (case JSON_parse s of
        None \<Rightarrow> s
      | Some v \<Rightarrow>
          if v = JNull \<or> fieldThrows N v (str ''encryption'') \<or> fieldThrows N v (str ''ssid'')
             \<or> fieldThrows N v (str ''password'')
          then s else wifiText N v)"
  by (simp add: wifiString_cases split: option.splits)

text \<open>
  C3, amended. For every string \<open>s\<close> that parses as a JSON object, the \<open>wifi\<close> rule
  returns \<open>WIFI:T:\<close>, the encryption, \<open>;S:\<close>, the ssid, \<open>;P:\<close>, the password and
  \<open>;;\<close>, each taken from the member of that name and replaced by its default
  (\<open>WPA\<close> for the encryption, the empty string for the other two) when the member is
  missing or falsy, provided that none of the three conversions to a string throws.
  A conversion throws on an object that has a member \<open>toString\<close>, on an array that
  the engine runs out of stack on, and on an array that contains either; when one
  throws, \<open>s\<close> is returned unchanged. For every string that does not parse as JSON,
  \<open>s\<close> is returned unchanged. The two examples of the specification come out as it
  says, on every engine.
\<close>

theorem wifi_object_format:
  "(JSON_parse s = Some (JObject ms)
      \<and> \<not> fieldThrows N (JObject ms) (str ''encryption'')
      \<and> \<not> fieldThrows N (JObject ms) (str ''ssid'')
      \<and> \<not> fieldThrows N (JObject ms) (str ''password'')
      \<longrightarrow> formatContentByType N s Wifi
            = str ''WIFI:T:'' @ fieldText N (JObject ms) (str ''encryption'') (str ''WPA'')
              @ str '';S:'' @ fieldText N (JObject ms) (str ''ssid'') []
              @ str '';P:'' @ fieldText N (JObject ms) (str ''password'') []
              @ str '';;'')
   \<and> (JSON_parse s = Some (JObject ms)
      \<and> (fieldThrows N (JObject ms) (str ''encryption'')
           \<or> fieldThrows N (JObject ms) (str ''ssid'')
           \<or> fieldThrows N (JObject ms) (str ''password''))
      \<longrightarrow> formatContentByType N s Wifi = s)
   \<and> (JSON_parse s = None \<longrightarrow> formatContentByType N s Wifi = s)
   \<and> formatContentByType N (str ''{\"ssid\":\"Home\",\"password\":\"pw\",\"encryption\":\"WPA2\"}'') Wifi
        = str ''WIFI:T:WPA2;S:Home;P:pw;;''
   \<and> formatContentByType N (str ''not json'') Wifi = str ''not json''"
proof -
  have "formatContentByType N (str ''{\"ssid\":\"Home\",\"password\":\"pw\",\"encryption\":\"WPA2\"}'') Wifi
        = str ''WIFI:T:WPA2;S:Home;P:pw;;''"
    by (simp add: wifi_defs parse_defs str_def)
  moreover have "formatContentByType N (str ''not json'') Wifi = str ''not json''"
    by (simp add: wifi_defs parse_defs str_def)
  moreover have "formatContentByType N s Wifi = wifiText N (JObject ms)"
    if "JSON_parse s = Some (JObject ms)" "\<not> fieldThrows N (JObject ms) (str ''encryption'')"
      "\<not> fieldThrows N (JObject ms) (str ''ssid'')" "\<not> fieldThrows N (JObject ms) (str ''password'')"
    unfolding format_wifi_cases using that by simp
  moreover have "formatContentByType N s Wifi = s"
    if "JSON_parse s = Some (JObject ms)"
      "fieldThrows N (JObject ms) (str ''encryption'') \<or> fieldThrows N (JObject ms) (str ''ssid'')
         \<or> fieldThrows N (JObject ms) (str ''password'')"
    unfolding format_wifi_cases using that by auto
  moreover have "formatContentByType N s Wifi = s" if "JSON_parse s = None"
    unfolding format_wifi_cases using that by simp
  ultimately show ?thesis
    unfolding wifiText_def by blast
qed

theorem wifi_object_format_witness:
  "JSON_parse (str ''{\"ssid\":\"Cafe\",\"encryption\":\"\",\"password\":[1,null,true]}'')
     = Some (JObject [(str ''ssid'', JString (str ''Cafe'')), (str ''encryption'', JString []),
                      (str ''password'', JArray [JNumber (str ''1''), JNull, JBool True])])
   \<and> formatContentByType asWritten
        (str ''{\"ssid\":\"Cafe\",\"encryption\":\"\",\"password\":[1,null,true]}'') Wifi
       = str ''WIFI:T:WPA;S:Cafe;P:1,,true;;''
   \<and> JSON_parse (str ''{\"ssid\":\"Cafe\",\"password\":{\"toString\":false}}'')
       = Some (JObject [(str ''ssid'', JString (str ''Cafe'')),
                        (str ''password'', JObject [(str ''toString'', JBool False)])])
   \<and> fieldThrows asWritten
         (JObject [(str ''ssid'', JString (str ''Cafe'')),
                   (str ''password'', JObject [(str ''toString'', JBool False)])]) (str ''password'')
   \<and> formatContentByType asWritten (str ''{\"ssid\":\"Cafe\",\"password\":{\"toString\":false}}'') Wifi
       = str ''{\"ssid\":\"Cafe\",\"password\":{\"toString\":false}}''
   \<and> JSON_parse (str ''{\"ssid\":[[[7]]]}'')
       = Some (JObject [(str ''ssid'', JArray [JArray [JArray [JNumber (str ''7'')]]])])
   \<and> fieldThrows shallowStack
         (JObject [(str ''ssid'', JArray [JArray [JArray [JNumber (str ''7'')]]])]) (str ''ssid'')
   \<and> formatContentByType shallowStack (str ''{\"ssid\":[[[7]]]}'') Wifi = str ''{\"ssid\":[[[7]]]}''
   \<and> formatContentByType asWritten (str ''{\"ssid\":[[[7]]]}'') Wifi = str ''WIFI:T:WPA;S:7;P:;;''
   \<and> JSON_parse (str ''{ssid:Cafe}'') = None
   \<and> formatContentByType asWritten (str ''{ssid:Cafe}'') Wifi = str ''{ssid:Cafe}''"
proof -
  let ?a = "str ''{\"ssid\":\"Cafe\",\"encryption\":\"\",\"password\":[1,null,true]}''"
  let ?ma = "[(str ''ssid'', JString (str ''Cafe'')), (str ''encryption'', JString []),
              (str ''password'', JArray [JNumber (str ''1''), JNull, JBool True])]"
  let ?b = "str ''{\"ssid\":\"Cafe\",\"password\":{\"toString\":false}}''"
  let ?mb = "[(str ''ssid'', JString (str ''Cafe'')),
              (str ''password'', JObject [(str ''toString'', JBool False)])]"
  let ?d = "str ''{\"ssid\":[[[7]]]}''"
  let ?md = "[(str ''ssid'', JArray [JArray [JArray [JNumber (str ''7'')]]])]"
  have pa: "JSON_parse ?a = Some (JObject ?ma)" by (simp add: parse_defs str_def)
  have pb: "JSON_parse ?b = Some (JObject ?mb)" by (simp add: parse_defs str_def)
  have pc: "JSON_parse (str ''{ssid:Cafe}'') = None" by (simp add: parse_defs str_def)
  have pd: "JSON_parse ?d = Some (JObject ?md)" by (simp add: parse_defs str_def)
  have ta: "\<not> fieldThrows asWritten (JObject ?ma) (str ''encryption'')
      \<and> \<not> fieldThrows asWritten (JObject ?ma) (str ''ssid'')
      \<and> \<not> fieldThrows asWritten (JObject ?ma) (str ''password'')"
    by (simp add: fieldThrows_def member_def getOwn_def str_def asWritten_def)
  have tb: "fieldThrows asWritten (JObject ?mb) (str ''password'')"
    by (simp add: fieldThrows_def member_def getOwn_def str_def)
  have td: "fieldThrows shallowStack (JObject ?md) (str ''ssid'')"
    by (simp add: fieldThrows_def member_def getOwn_def str_def shallowStack_def)
  have te: "\<not> fieldThrows asWritten (JObject ?md) (str ''encryption'')
      \<and> \<not> fieldThrows asWritten (JObject ?md) (str ''ssid'')
      \<and> \<not> fieldThrows asWritten (JObject ?md) (str ''password'')"
    by (simp add: fieldThrows_def member_def getOwn_def str_def asWritten_def)
  have fa: "fieldText asWritten (JObject ?ma) (str ''encryption'') (str ''WPA'') = str ''WPA''
      \<and> fieldText asWritten (JObject ?ma) (str ''ssid'') [] = str ''Cafe''
      \<and> fieldText asWritten (JObject ?ma) (str ''password'') [] = str ''1,,true''"
    by (simp add: fieldText_def member_def getOwn_def str_def asWritten_def)
  have fe: "fieldText asWritten (JObject ?md) (str ''encryption'') (str ''WPA'') = str ''WPA''
      \<and> fieldText asWritten (JObject ?md) (str ''ssid'') [] = str ''7''
      \<and> fieldText asWritten (JObject ?md) (str ''password'') [] = []"
    by (simp add: fieldText_def member_def getOwn_def str_def asWritten_def)
  show ?thesis
    using wifi_object_format [of ?a ?ma asWritten] wifi_object_format [of ?b ?mb asWritten]
      wifi_object_format [of ?d ?md shallowStack] wifi_object_format [of ?d ?md asWritten]
      wifi_object_format [of "str ''{ssid:Cafe}''" "[]" asWritten] pa pb pc pd ta tb td te fa fe
    by (simp add: str_def)
qed

text \<open>
  The claim as first stated fails: this text is a JSON object, the conversion of
  its \<open>ssid\<close> throws, and the rule returns the text itself, not a WIFI string.
\<close>

theorem wifi_object_format_counterexample:
  "JSON_parse (str ''{\"ssid\":{\"toString\":null}}'')
     = Some (JObject [(str ''ssid'', JObject [(str ''toString'', JNull)])])
   \<and> formatContentByType asWritten (str ''{\"ssid\":{\"toString\":null}}'') Wifi
     = str ''{\"ssid\":{\"toString\":null}}''
   \<and> \<not> startsWith (formatContentByType asWritten (str ''{\"ssid\":{\"toString\":null}}'') Wifi)
         (str ''WIFI:T:'')"
  by (simp add: wifi_defs parse_defs str_def)

text \<open>
  C10, amended. For every string \<open>s\<close> that parses as JSON to a value other than
  \<open>null\<close>, the \<open>wifi\<close> rule returns the WIFI string with every missing or falsy
  member replaced by its default, provided that no conversion of a member to a
  string throws; a number, a string, a boolean or an array has no members, so it
  gives \<open>WIFI:T:WPA;S:;P:;;\<close>, as \<open>{}\<close> does. The input comes back unchanged in
  exactly these cases: the text is not JSON; it is \<open>null\<close>; or the conversion of a
  truthy member throws, which it does on an object that has a member \<open>toString\<close>,
  on an array that the engine runs out of stack on, and on an array that contains
  either.
\<close>

theorem wifi_fallback_cases:
  "(JSON_parse s = Some v \<and> v \<noteq> JNull
      \<and> \<not> fieldThrows N v (str ''encryption'') \<and> \<not> fieldThrows N v (str ''ssid'')
      \<and> \<not> fieldThrows N v (str ''password'')
      \<longrightarrow> formatContentByType N s Wifi = wifiText N v)
   \<and> (member v k = None \<or> (\<exists>x. member v k = Some x \<and> \<not> ToBoolean N x) \<longrightarrow> fieldText N v k d = d)
   \<and> (JSON_parse s = Some v \<and> v \<noteq> JNull \<and> (\<forall>ms. v \<noteq> JObject ms)
      \<longrightarrow> formatContentByType N s Wifi = str ''WIFI:T:WPA;S:;P:;;'')
   \<and> formatContentByType N (str ''{}'') Wifi = str ''WIFI:T:WPA;S:;P:;;''
   \<and> (wifiString N s = None \<longleftrightarrow>
        JSON_parse s = None \<or> JSON_parse s = Some JNull
        \<or> (\<exists>w. JSON_parse s = Some w
              \<and> (fieldThrows N w (str ''encryption'') \<or> fieldThrows N w (str ''ssid'')
                   \<or> fieldThrows N w (str ''password''))))
   \<and> (wifiString N s = None \<longrightarrow> formatContentByType N s Wifi = s)
   \<and> formatContentByType N (str ''null'') Wifi = str ''null''"
proof -
  have a: "formatContentByType N s Wifi = wifiText N v"
    if "JSON_parse s = Some v" "v \<noteq> JNull" "\<not> fieldThrows N v (str ''encryption'')"
      "\<not> fieldThrows N v (str ''ssid'')" "\<not> fieldThrows N v (str ''password'')"
    unfolding format_wifi_cases using that by simp
  have b: "fieldText N v k d = d"
    if "member v k = None \<or> (\<exists>x. member v k = Some x \<and> \<not> ToBoolean N x)"
    using that by (auto simp: fieldText_def)
  have c: "formatContentByType N s Wifi = str ''WIFI:T:WPA;S:;P:;;''"
    if "JSON_parse s = Some v" "v \<noteq> JNull" "\<forall>ms. v \<noteq> JObject ms"
  proof -
    have "member v k' = None" for k' using that(3) by (cases v) (simp_all add: member_def)
    then have "\<not> fieldThrows N v k'" and "fieldText N v k' d' = d'" for k' d'
      by (simp_all add: fieldThrows_def fieldText_def)
    then show ?thesis
      unfolding format_wifi_cases using that(1,2) by (simp add: wifiText_def str_def)
  qed
  have d: "formatContentByType N (str ''{}'') Wifi = str ''WIFI:T:WPA;S:;P:;;''"
    by (simp add: wifi_defs parse_defs str_def)
  have e: "wifiString N s = None \<longleftrightarrow>
        JSON_parse s = None \<or> JSON_parse s = Some JNull
        \<or> (\<exists>w. JSON_parse s = Some w
              \<and> (fieldThrows N w (str ''encryption'') \<or> fieldThrows N w (str ''ssid'')
                   \<or> fieldThrows N w (str ''password'')))"
    by (auto simp: wifiString_cases split: option.splits)
  have f: "formatContentByType N s Wifi = s" if "wifiString N s = None"
    using that by simp
  have g: "formatContentByType N (str ''null'') Wifi = str ''null''"
    by (simp add: wifi_defs parse_defs str_def)
  show ?thesis using a b c d e f g by blast
qed

theorem wifi_fallback_cases_witness:
  "JSON_parse (str ''5'') = Some (JNumber (str ''5''))
   \<and> formatContentByType asWritten (str ''5'') Wifi = str ''WIFI:T:WPA;S:;P:;;''
   \<and> JSON_parse (str ''{\"ssid\":\"A\",\"encryption\":false}'')
       = Some (JObject [(str ''ssid'', JString (str ''A'')), (str ''encryption'', JBool False)])
   \<and> formatContentByType asWritten (str ''{\"ssid\":\"A\",\"encryption\":false}'') Wifi
       = str ''WIFI:T:WPA;S:A;P:;;''
   \<and> wifiString asWritten (str ''null'') = None
   \<and> wifiString asWritten (str ''{\"ssid\":'') = None
   \<and> wifiString asWritten (str ''{\"encryption\":[[{\"toString\":0}]]}'') = None
   \<and> wifiString shallowStack (str ''{\"password\":[[[[]]]]}'') = None
   \<and> wifiString asWritten (str ''{\"password\":[[[[]]]]}'') \<noteq> None"
proof -
  let ?a = "str ''{\"ssid\":\"A\",\"encryption\":false}''"
  let ?va = "JObject [(str ''ssid'', JString (str ''A'')), (str ''encryption'', JBool False)]"
  let ?c = "str ''{\"encryption\":[[{\"toString\":0}]]}''"
  let ?vc = "JObject [(str ''encryption'', JArray [JArray [JObject [(str ''toString'', JNumber (str ''0''))]]])]"
  let ?d = "str ''{\"password\":[[[[]]]]}''"
  let ?vd = "JObject [(str ''password'', JArray [JArray [JArray [JArray []]]])]"
  have p5: "JSON_parse (str ''5'') = Some (JNumber (str ''5''))" by (simp add: parse_defs str_def)
  have pa: "JSON_parse ?a = Some ?va" by (simp add: parse_defs str_def)
  have pn: "JSON_parse (str ''null'') = Some JNull" by (simp add: parse_defs str_def)
  have pb: "JSON_parse (str ''{\"ssid\":'') = None" by (simp add: parse_defs str_def)
  have pc: "JSON_parse ?c = Some ?vc" by (simp add: parse_defs str_def)
  have pd: "JSON_parse ?d = Some ?vd" by (simp add: parse_defs str_def)
  have ta: "\<not> fieldThrows asWritten ?va (str ''encryption'') \<and> \<not> fieldThrows asWritten ?va (str ''ssid'')
      \<and> \<not> fieldThrows asWritten ?va (str ''password'')"
    by (simp add: fieldThrows_def member_def getOwn_def str_def)
  have tc: "fieldThrows asWritten ?vc (str ''encryption'')"
    by (simp add: fieldThrows_def member_def getOwn_def str_def asWritten_def)
  have td: "fieldThrows shallowStack ?vd (str ''password'')"
    by (simp add: fieldThrows_def member_def getOwn_def str_def shallowStack_def)
  have te: "\<not> fieldThrows asWritten ?vd (str ''encryption'') \<and> \<not> fieldThrows asWritten ?vd (str ''ssid'')
      \<and> \<not> fieldThrows asWritten ?vd (str ''password'')"
    by (simp add: fieldThrows_def member_def getOwn_def str_def asWritten_def)
  have wa: "wifiText asWritten ?va = str ''WIFI:T:WPA;S:A;P:;;''"
    by (simp add: wifiText_def fieldText_def member_def getOwn_def str_def)
  show ?thesis
    using wifi_fallback_cases [of "str ''5''" "JNumber (str ''5'')" asWritten]
      wifi_fallback_cases [of ?a ?va asWritten]
      wifi_fallback_cases [of "str ''null''" JNull asWritten]
      wifi_fallback_cases [of "str ''{\"ssid\":''" JNull asWritten]
      wifi_fallback_cases [of ?c ?vc asWritten]
      wifi_fallback_cases [of ?d ?vd shallowStack]
      wifi_fallback_cases [of ?d ?vd asWritten]
      p5 pa pn pb pc pd ta tc td te wa
    by (simp add: str_def)
qed

text \<open>
  The claim as first stated fails: this text parses to a value other than \<open>null\<close>,
  and still the rule returns the text itself, not a WIFI string.
\<close>

theorem wifi_fallback_cases_counterexample:
  "JSON_parse (str ''{\"password\":[{\"toString\":\"x\"}]}'')
     = Some (JObject [(str ''password'', JArray [JObject [(str ''toString'', JString (str ''x''))]])])
   \<and> formatContentByType asWritten (str ''{\"password\":[{\"toString\":\"x\"}]}'') Wifi
     = str ''{\"password\":[{\"toString\":\"x\"}]}''
   \<and> \<not> startsWith (formatContentByType asWritten (str ''{\"password\":[{\"toString\":\"x\"}]}'') Wifi)
         (str ''WIFI:T:'')"
  by (simp add: wifi_defs parse_defs str_def)

section \<open>Batch runs\<close>

lemma batchLoop_accepts:
  "accepts enc N mode es \<Longrightarrow>
     \<exists>new. batchLoop enc N mode es acc = Some (acc @ new)
        \<and> list_all2 (\<lambda>e c. encodes enc (payload N mode e) e c) (filter hasContent es) new"
proof (induction es arbitrary: acc)
  case Nil
  then show ?case by simp
next
  case (Cons e es)
  show ?case
  proof (cases "hasContent e")
    case False
    then have "accepts enc N mode es" using Cons.prems by (simp add: accepts_def)
    from Cons.IH [OF this, of acc] show ?thesis using False by simp
  next
    case True
    then obtain url where url: "enc (payload N mode e) = Some url"
      and rest: "accepts enc N mode es"
      using Cons.prems by (auto simp: accepts_def)
    define c :: BatchQRCode where
      "c = \<lparr>content = content e, type = type e, dataUrl = url, formattedContent = payload N mode e\<rparr>"
    from Cons.IH [OF rest, of "acc @ [c]"] obtain new where
      new: "batchLoop enc N mode es (acc @ [c]) = Some ((acc @ [c]) @ new)"
        "list_all2 (\<lambda>e c. encodes enc (payload N mode e) e c) (filter hasContent es) new"
      by blast
    have "encodes enc (payload N mode e) e c" using url by (simp add: encodes_def c_def)
    then have "list_all2 (\<lambda>e c. encodes enc (payload N mode e) e c) (filter hasContent (e # es)) (c # new)"
      using True new(2) by simp
    moreover have "batchLoop enc N mode (e # es) acc = Some (acc @ c # new)"
      using True url new(1) by (simp add: c_def)
    ultimately show ?thesis by blast
  qed
qed

lemma batchLoop_rejects:
  "\<not> accepts enc N mode es \<Longrightarrow> batchLoop enc N mode es acc = None"
proof (induction es arbitrary: acc)
  case Nil
  then show ?case by (simp add: accepts_def)
next
  case (Cons e es)
  then show ?case by (auto simp: accepts_def split: option.splits)
qed

lemma generate_success:
  assumes "list_ex hasContent entries" and "accepts enc N mode entries"
  shows "\<exists>codes. generateBatchQRCodes enc N mode entries = Inr codes
     \<and> list_all2 (\<lambda>e c. encodes enc (payload N mode e) e c) (filter hasContent entries) codes"
  using assms batchLoop_accepts [of enc N mode entries "[]"]
  by (auto simp: generateBatchQRCodes_def)

lemma generate_Inr:
  assumes "generateBatchQRCodes enc N mode entries = Inr codes"
  shows "list_ex hasContent entries \<and> accepts enc N mode entries
     \<and> list_all2 (\<lambda>e c. encodes enc (payload N mode e) e c) (filter hasContent entries) codes"
proof -
  have c: "list_ex hasContent entries"
    using assms by (auto simp: generateBatchQRCodes_def split: if_splits)
  have a: "accepts enc N mode entries"
  proof (rule ccontr)
    assume "\<not> accepts enc N mode entries"
    then have "batchLoop enc N mode entries [] = None" by (rule batchLoop_rejects)
    then show False using assms c by (simp add: generateBatchQRCodes_def)
  qed
  from generate_success [OF c a] show ?thesis using assms c a by auto
qed

lemma generate_failures:
  "(\<not> list_ex hasContent entries \<longrightarrow> generateBatchQRCodes enc N mode entries = Inl NoContent)
   \<and> (list_ex hasContent entries \<and> \<not> accepts enc N mode entries
        \<longrightarrow> generateBatchQRCodes enc N mode entries = Inl GenerationFailed)"
  by (simp add: generateBatchQRCodes_def batchLoop_rejects)

lemma trim_empty_iff: "trim s = [] \<longleftrightarrow> list_all isWhiteSpace s"
proof -
  have b: "(\<forall>x\<in>set (dropWhile P xs). P x) \<longleftrightarrow> (\<forall>x\<in>set xs. P x)" for P and xs :: jsstring
    by (induction xs) auto
  show ?thesis
    by (simp add: trim_def b list_all_iff)
qed

text \<open>
  C6. For every list of entries, a batch run that succeeds yields exactly one code
  for each entry whose trimmed content is not empty, in the order of the entries,
  with the content and the type of its entry; the other entries are skipped. The
  run succeeds when some entry has content and the encoder rejects no payload; it
  yields no code when every entry is blank.
\<close>

theorem one_code_per_entry:
  "(generateBatchQRCodes enc N mode entries = Inr codes \<longrightarrow>
      list_all2 (\<lambda>e c. content c = content e \<and> type c = type e)
        (filter (\<lambda>e. trim (content e) \<noteq> []) entries) codes)
   \<and> (list_ex (\<lambda>e. trim (content e) \<noteq> []) entries \<and> accepts enc N mode entries \<longrightarrow>
        (\<exists>codes. generateBatchQRCodes enc N mode entries = Inr codes))
   \<and> (\<not> list_ex (\<lambda>e. trim (content e) \<noteq> []) entries \<longrightarrow>
        generateBatchQRCodes enc N mode entries = Inl NoContent)"
proof -
  have h: "(\<lambda>e. trim (content e) \<noteq> []) = hasContent" by (auto simp: hasContent_def)
  have "list_all2 (\<lambda>e c. content c = content e \<and> type c = type e) (filter hasContent entries) codes"
    if "generateBatchQRCodes enc N mode entries = Inr codes"
  proof -
    have "list_all2 (\<lambda>e c. encodes enc (payload N mode e) e c) (filter hasContent entries) codes"
      using generate_Inr [OF that] by simp
    then show ?thesis by (rule list_all2_mono) (simp add: encodes_def)
  qed
  then show ?thesis
    unfolding h using generate_success [of entries enc N mode] generate_failures [of entries enc N mode]
    by blast
qed

theorem one_code_per_entry_witness:
  "list_ex (\<lambda>e. trim (content e) \<noteq> []) sampleEntries
   \<and> accepts sampleEncoder asWritten Batch sampleEntries
   \<and> generateBatchQRCodes sampleEncoder asWritten Batch sampleEntries
       = Inr [\<lparr>content = str ''PROMO1'', type = Text,
                dataUrl = str ''data:image/png;base64,PROMO1'', formattedContent = str ''PROMO1''\<rparr>,
              \<lparr>content = str ''a@b.c'', type = Email,
                dataUrl = str ''data:image/png;base64,mailto:a@b.c'',
                formattedContent = str ''mailto:a@b.c''\<rparr>]
   \<and> filter (\<lambda>e. trim (content e) \<noteq> []) sampleEntries
       = [\<lparr>content = str ''PROMO1'', type = Text\<rparr>, \<lparr>content = str ''a@b.c'', type = Email\<rparr>]
   \<and> \<not> list_ex (\<lambda>e. trim (content e) \<noteq> []) [\<lparr>content = str ''  '', type = Url\<rparr>]
   \<and> generateBatchQRCodes sampleEncoder asWritten Batch [\<lparr>content = str ''  '', type = Url\<rparr>]
       = Inl NoContent"
proof -
  have a: "list_ex (\<lambda>e. trim (content e) \<noteq> []) sampleEntries"
    by (simp add: sampleEntries_def trim_def isWhiteSpace_def str_def)
  have b: "accepts sampleEncoder asWritten Batch sampleEntries"
    by (simp add: accepts_def sampleEncoder_def list_all_iff)
  have c: "filter (\<lambda>e. trim (content e) \<noteq> []) sampleEntries
       = [\<lparr>content = str ''PROMO1'', type = Text\<rparr>, \<lparr>content = str ''a@b.c'', type = Email\<rparr>]"
    by (simp add: sampleEntries_def trim_def isWhiteSpace_def str_def)
  have d: "generateBatchQRCodes sampleEncoder asWritten Batch sampleEntries
       = Inr [\<lparr>content = str ''PROMO1'', type = Text,
                dataUrl = str ''data:image/png;base64,PROMO1'', formattedContent = str ''PROMO1''\<rparr>,
              \<lparr>content = str ''a@b.c'', type = Email,
                dataUrl = str ''data:image/png;base64,mailto:a@b.c'',
                formattedContent = str ''mailto:a@b.c''\<rparr>]"
    by (simp add: generateBatchQRCodes_def sampleEntries_def hasContent_def trim_def isWhiteSpace_def
        payload_def sampleEncoder_def str_def)
  have e: "\<not> list_ex (\<lambda>e. trim (content e) \<noteq> []) [\<lparr>content = str ''  '', type = Url\<rparr>]"
    by (simp add: trim_def isWhiteSpace_def str_def)
  show ?thesis
    using a b c d e
      one_code_per_entry [of sampleEncoder asWritten Batch sampleEntries]
      one_code_per_entry [of sampleEncoder asWritten Batch "[\<lparr>content = str ''  '', type = Url\<rparr>]"]
    by simp
qed

text \<open>
  C7. For every entry processed in the \<open>yandex-ultima\<close> mode the payload is
  \<open>https://8jxm.adj.st/addpromocode?adj_t=rf7a0p4_8cgc7kg&ref=qr&code=\<close> followed by
  the content of the entry as it is. Neither the formatter nor the type of the
  entry has a part in it.
\<close>

theorem promo_link_payload:
  "(generateBatchQRCodes enc N YandexUltima entries = Inr codes \<longrightarrow>
      map formattedContent codes
        = map (\<lambda>e. str ''https://8jxm.adj.st/addpromocode?adj_t=rf7a0p4_8cgc7kg&ref=qr&code='' @ content e)
            (filter (\<lambda>e. trim (content e) \<noteq> []) entries))
   \<and> (list_ex (\<lambda>e. trim (content e) \<noteq> []) entries \<and> accepts enc N YandexUltima entries \<longrightarrow>
        (\<exists>codes. generateBatchQRCodes enc N YandexUltima entries = Inr codes))
   \<and> payload N YandexUltima e
        = str ''https://8jxm.adj.st/addpromocode?adj_t=rf7a0p4_8cgc7kg&ref=qr&code='' @ content e"
proof -
  have h: "(\<lambda>e. trim (content e) \<noteq> []) = hasContent" by (auto simp: hasContent_def)
  have p: "payload N YandexUltima e
        = str ''https://8jxm.adj.st/addpromocode?adj_t=rf7a0p4_8cgc7kg&ref=qr&code='' @ content e" for e
    by (simp add: payload_def promoLink_def)
  have "map formattedContent codes = map (payload N YandexUltima) (filter hasContent entries)"
    if "generateBatchQRCodes enc N YandexUltima entries = Inr codes"
  proof -
    have "list_all2 (\<lambda>e c. encodes enc (payload N YandexUltima e) e c) (filter hasContent entries) codes"
      using generate_Inr [OF that] by simp
    then have "list_all2 (\<lambda>e c. formattedContent c = payload N YandexUltima e) (filter hasContent entries) codes"
      by (rule list_all2_mono) (simp add: encodes_def)
    then show ?thesis
      by (induction rule: list_all2_induct) auto
  qed
  then show ?thesis
    unfolding h using generate_success [of entries enc N YandexUltima] p by auto
qed

theorem promo_link_payload_witness:
  "list_ex (\<lambda>e. trim (content e) \<noteq> []) sampleEntries
   \<and> accepts sampleEncoder asWritten YandexUltima sampleEntries
   \<and> (\<exists>codes. generateBatchQRCodes sampleEncoder asWritten YandexUltima sampleEntries = Inr codes
        \<and> map formattedContent codes
           = [str ''https://8jxm.adj.st/addpromocode?adj_t=rf7a0p4_8cgc7kg&ref=qr&code=PROMO1'',
              str ''https://8jxm.adj.st/addpromocode?adj_t=rf7a0p4_8cgc7kg&ref=qr&code=a@b.c''])"
proof -
  have a: "list_ex (\<lambda>e. trim (content e) \<noteq> []) sampleEntries"
    by (simp add: sampleEntries_def trim_def isWhiteSpace_def str_def)
  have b: "accepts sampleEncoder asWritten YandexUltima sampleEntries"
    by (simp add: accepts_def sampleEncoder_def list_all_iff)
  have c: "map (\<lambda>e. str ''https://8jxm.adj.st/addpromocode?adj_t=rf7a0p4_8cgc7kg&ref=qr&code='' @ content e)
            (filter (\<lambda>e. trim (content e) \<noteq> []) sampleEntries)
       = [str ''https://8jxm.adj.st/addpromocode?adj_t=rf7a0p4_8cgc7kg&ref=qr&code=PROMO1'',
          str ''https://8jxm.adj.st/addpromocode?adj_t=rf7a0p4_8cgc7kg&ref=qr&code=a@b.c'']"
    by (simp add: sampleEntries_def trim_def isWhiteSpace_def str_def)
  from a b promo_link_payload [of sampleEncoder asWritten sampleEntries]
  obtain codes where codes: "generateBatchQRCodes sampleEncoder asWritten YandexUltima sampleEntries = Inr codes"
    by blast
  then have "map formattedContent codes
       = [str ''https://8jxm.adj.st/addpromocode?adj_t=rf7a0p4_8cgc7kg&ref=qr&code=PROMO1'',
          str ''https://8jxm.adj.st/addpromocode?adj_t=rf7a0p4_8cgc7kg&ref=qr&code=a@b.c'']"
    using promo_link_payload [of sampleEncoder asWritten sampleEntries codes] c by simp
  with codes have "\<exists>codes. generateBatchQRCodes sampleEncoder asWritten YandexUltima sampleEntries = Inr codes
        \<and> map formattedContent codes
           = [str ''https://8jxm.adj.st/addpromocode?adj_t=rf7a0p4_8cgc7kg&ref=qr&code=PROMO1'',
              str ''https://8jxm.adj.st/addpromocode?adj_t=rf7a0p4_8cgc7kg&ref=qr&code=a@b.c'']"
    by (intro exI [of _ codes] conjI)
  with a b show ?thesis by (intro conjI)
qed

text \<open>
  C1, amended. For every code that a batch run yields in a mode other than
  \<open>yandex-ultima\<close>, the stored \<open>formattedContent\<close> is \<open>formatContentByType\<close> of the
  content and the type of that code. In the \<open>yandex-ultima\<close> mode it is the promo
  link of the content instead, which the formatter has no part in.
\<close>

theorem stored_payload_by_mode:
  "(mode \<noteq> YandexUltima \<and> generateBatchQRCodes enc N mode entries = Inr codes \<longrightarrow>
      list_all (\<lambda>c. formattedContent c = formatContentByType N (content c) (type c)) codes)
   \<and> (generateBatchQRCodes enc N YandexUltima entries = Inr codes \<longrightarrow>
      list_all (\<lambda>c. formattedContent c = promoLink (content c)) codes)"
proof -
  have "list_all (\<lambda>c. formattedContent c = payload N m \<lparr>content = content c, type = type c\<rparr>) codes"
    if "generateBatchQRCodes enc N m entries = Inr codes" for m
  proof -
    have "list_all2 (\<lambda>e c. encodes enc (payload N m e) e c) (filter hasContent entries) codes"
      using generate_Inr [OF that] by simp
    then show ?thesis
      by (induction rule: list_all2_induct) (auto simp: encodes_def payload_def)
  qed
  from this [of mode] this [of YandexUltima] show ?thesis
    by (auto simp: payload_def list_all_iff)
qed

text \<open>
  The claim as first stated fails: in the \<open>yandex-ultima\<close> mode the stored payload
  of this \<open>email\<close> entry is the promo link, and the formatter gives \<open>mailto:PROMO\<close>.
\<close>

theorem stored_payload_counterexample:
  "generateBatchQRCodes sampleEncoder asWritten YandexUltima [\<lparr>content = str ''PROMO'', type = Email\<rparr>]
     = Inr [\<lparr>content = str ''PROMO'', type = Email,
             dataUrl = str ''data:image/png;base64,https://8jxm.adj.st/addpromocode?adj_t=rf7a0p4_8cgc7kg&ref=qr&code=PROMO'',
             formattedContent = str ''https://8jxm.adj.st/addpromocode?adj_t=rf7a0p4_8cgc7kg&ref=qr&code=PROMO''\<rparr>]
   \<and> formatContentByType asWritten (str ''PROMO'') Email = str ''mailto:PROMO''
   \<and> str ''https://8jxm.adj.st/addpromocode?adj_t=rf7a0p4_8cgc7kg&ref=qr&code=PROMO''
       \<noteq> formatContentByType asWritten (str ''PROMO'') Email"
  by (simp add: generateBatchQRCodes_def hasContent_def trim_def isWhiteSpace_def payload_def
      promoLink_def sampleEncoder_def str_def)

theorem stored_payload_by_mode_witness:
  "Batch \<noteq> YandexUltima
   \<and> (\<exists>codes. generateBatchQRCodes sampleEncoder asWritten Batch sampleEntries = Inr codes
        \<and> list_all (\<lambda>c. formattedContent c = formatContentByType asWritten (content c) (type c)) codes)
   \<and> (\<exists>codes. generateBatchQRCodes sampleEncoder asWritten YandexUltima sampleEntries = Inr codes
        \<and> list_all (\<lambda>c. formattedContent c = promoLink (content c)) codes)"
proof -
  have a: "list_ex hasContent sampleEntries"
    by (simp add: sampleEntries_def hasContent_def trim_def isWhiteSpace_def str_def)
  have b: "accepts sampleEncoder asWritten m sampleEntries" for m
    by (simp add: accepts_def sampleEncoder_def list_all_iff)
  obtain c1 where c1: "generateBatchQRCodes sampleEncoder asWritten Batch sampleEntries = Inr c1"
    using generate_success [OF a b] by blast
  obtain c2 where c2: "generateBatchQRCodes sampleEncoder asWritten YandexUltima sampleEntries = Inr c2"
    using generate_success [OF a b] by blast
  show ?thesis
    using c1 c2 stored_payload_by_mode [of Batch sampleEncoder asWritten sampleEntries c1]
      stored_payload_by_mode [of YandexUltima sampleEncoder asWritten sampleEntries c2]
    by simp
qed

section \<open>File names in the archive\<close>

lemma notAlnum_iff: "notAlnum c \<longleftrightarrow> \<not> isAlnum c"
proof -
  have "isAsciiUpper (canonicalize c) \<longleftrightarrow> isAsciiLower c \<or> isAsciiUpper c"
    unfolding isAsciiUpper_def isAsciiLower_def word_le_nat_alt unat_canonicalize
    by (simp split: if_splits) arith
  moreover have "isDigit (canonicalize c) \<longleftrightarrow> isDigit c"
    unfolding isDigit_def word_le_nat_alt unat_canonicalize
    by (simp split: if_splits) arith
  ultimately show ?thesis by (auto simp: notAlnum_def isAlnum_def)
qed

lemma toLowerAscii_fixed: "\<not> isAsciiUpper c \<Longrightarrow> toLowerAscii c = c"
  by (simp add: toLowerAscii_def)

lemma toLowerAscii_lower: "isAsciiUpper c \<Longrightarrow> isAsciiLower (toLowerAscii c)"
  unfolding isAsciiUpper_def isAsciiLower_def word_le_nat_alt unat_toLowerAscii
  by simp

lemma sanitize_underscored: "sanitize s = underscoredName s"
proof -
  have "toLowerCase (replaceAll notAlnum (str ''_'') s)
      = map (\<lambda>c. if isAlnum c then toLowerAscii c else of_char CHR ''_'') s"
  proof (induction s)
    case Nil
    then show ?case by (simp add: toLowerCase_def replaceAll_def)
  next
    case (Cons c s)
    have "toLowerAscii (of_char CHR ''_'') = (of_char CHR ''_'' :: jschar)"
      by (simp add: toLowerAscii_def isAsciiUpper_def)
    then show ?case
      using Cons by (simp add: toLowerCase_def replaceAll_def notAlnum_iff str_def)
  qed
  then show ?thesis by (simp add: sanitize_def underscoredName_def)
qed

lemma underscoredName_chars:
  "list_all (\<lambda>c. isDigit c \<or> isAsciiLower c \<or> c = of_char CHR ''_'') (underscoredName s)"
proof -
  have "isDigit (toLowerAscii c) \<or> isAsciiLower (toLowerAscii c)" if "isAlnum c" for c
  proof (cases "isAsciiUpper c")
    case True
    then show ?thesis by (simp add: toLowerAscii_lower)
  next
    case False
    then show ?thesis using that by (auto simp: toLowerAscii_fixed isAlnum_def)
  qed
  then have "list_all (\<lambda>c. isDigit c \<or> isAsciiLower c \<or> c = of_char CHR ''_'')
      (map (\<lambda>c. if isAlnum c then toLowerAscii c else of_char CHR ''_'') s)"
    by (auto simp: list_all_iff)
  then show ?thesis
    unfolding underscoredName_def list_all_iff by (meson in_set_takeD)
qed

text \<open>
  C9, amended. For every code added to the archive: when \<open>useContentAsFilename\<close> is
  set or the mode is \<open>yandex-ultima\<close>, the file name is the sanitized content, a
  dot and the extension of the image format; otherwise it is the sanitized
  \<open>formattedContent\<close>, an underscore, the name of the type, a dot and the
  extension. Sanitizing replaces every code unit outside \<open>[a-zA-Z0-9]\<close> by an
  underscore, turns the letters to lower case and keeps the first 30 code units,
  so a sanitized name has at most 30 code units, each a digit, a lower-case ASCII
  letter or an underscore.
\<close>

theorem archive_filename:
  "zipFilename useContentAsFilename mode fileFormat code =
     (if useContentAsFilename \<or> mode = YandexUltima
      then underscoredName (content code) @ str ''.'' @ formatName fileFormat
      else underscoredName (formattedContent code) @ str ''_'' @ typeName (type code)
             @ str ''.'' @ formatName fileFormat)
   \<and> length (underscoredName s) \<le> 30
   \<and> list_all (\<lambda>c. isDigit c \<or> isAsciiLower c \<or> c = of_char CHR ''_'') (underscoredName s)"
  using underscoredName_chars [of s]
  by (simp add: zipFilename_def sanitize_underscored) (simp add: underscoredName_def)

theorem archive_filename_witness:
  "zipFilename True Batch Png sampleCode = str ''caf__01.png''
   \<and> zipFilename False YandexUltima Eps sampleCode = str ''caf__01.eps''
   \<and> zipFilename False Batch Png sampleCode = str ''https___caf__01_url.png''
   \<and> underscoredName (str ''An-Example_of.A.Very/Long?Name#0123456789'')
       = str ''an_example_of_a_very_long_name''"
  using archive_filename [of True Batch Png sampleCode]
    archive_filename [of False YandexUltima Eps sampleCode]
    archive_filename [of False Batch Png sampleCode]
  by (simp add: sampleCode_def underscoredName_def isAlnum_def char_class_defs str_def
      formatName_def typeName_def)

text \<open>
  The claim as first stated fails: the space of \<open>a b\<close> becomes an underscore in the
  file name; it is not removed.
\<close>

theorem archive_filename_counterexample:
  "zipFilename True Batch Png
     \<lparr>content = str ''a b'', type = Text, dataUrl = str ''data:,'', formattedContent = str ''a b''\<rparr>
     = str ''a_b.png''
   \<and> strippedName (str ''a b'') @ str ''.'' @ formatName Png = str ''ab.png''
   \<and> zipFilename True Batch Png
        \<lparr>content = str ''a b'', type = Text, dataUrl = str ''data:,'', formattedContent = str ''a b''\<rparr>
       \<noteq> strippedName (str ''a b'') @ str ''.'' @ formatName Png"
  by (simp add: zipFilename_def sanitize_def replaceAll_def notAlnum_def toLowerCase_def
      strippedName_def isAlnum_def char_class_defs str_def formatName_def)

section \<open>convertCanvasToEPS\<close>

lemma xLoop_eq:
  "xLoop bytes w h y x eps =
     eps @ concat (map (\<lambda>x. scanline h x y)
                    (filter (\<lambda>x. opaque bytes ((y * w + x) * 4 + 3)) [x..<w]))"
proof (induction bytes w h y x eps rule: xLoop.induct)
  case (1 bytes w h y x eps)
  show ?case
  proof (cases "x < w")
    case True
    then have "[x..<w] = x # [Suc x..<w]" by (simp add: upt_conv_Cons)
    then show ?thesis using True 1 by (simp add: xLoop.simps [of bytes w h y x eps])
  next
    case False
    then show ?thesis by (simp add: xLoop.simps [of bytes w h y x eps])
  qed
qed

lemma yLoop_eq:
  "yLoop bytes w h y eps =
     eps @ concat (map (\<lambda>y. concat (map (\<lambda>x. scanline h x y)
                    (filter (\<lambda>x. opaque bytes ((y * w + x) * 4 + 3)) [0..<w]))) [y..<h])"
proof (induction bytes w h y eps rule: yLoop.induct)
  case (1 bytes w h y eps)
  show ?case
  proof (cases "y < h")
    case True
    then have "[y..<h] = y # [Suc y..<h]" by (simp add: upt_conv_Cons)
    then show ?thesis using True 1 by (simp add: yLoop.simps [of bytes w h y eps] xLoop_eq)
  next
    case False
    then show ?thesis by (simp add: yLoop.simps [of bytes w h y eps])
  qed
qed

lemma raster_rows:
  "concat (map f (filter P (concat (map (\<lambda>y. map (\<lambda>x. (x, y)) xs) ys)))) =
     concat (map (\<lambda>y. concat (map (\<lambda>x. f (x, y)) (filter (\<lambda>x. P (x, y)) xs))) ys)"
  by (induction ys) (simp_all add: filter_map o_def)

lemma pixel_in_range:
  assumes "y < h" and "x < w" and "length bytes = 4 * w * h"
  shows "(y * w + x) * 4 + 3 < length (bytes :: 8 word list)"
proof -
  have "y * w + x < Suc y * w" using assms(2) by simp
  also have "\<dots> \<le> h * w" using assms(1) by (simp only: mult_le_mono1 Suc_leI)
  finally have "y * w + x < h * w" .
  then have "(y * w + x) * 4 + 4 \<le> h * w * 4" by simp
  then show ?thesis using assms(3) by (simp add: mult.commute mult.left_commute)
qed

lemma opaque_alpha:
  assumes "length bytes = 4 * w * h"
  shows "concat (map (\<lambda>y. concat (map (\<lambda>x. scanline h x y)
                    (filter (\<lambda>x. opaque bytes ((y * w + x) * 4 + 3)) [0..<w]))) [0..<h])
     = concat (map (\<lambda>y. concat (map (\<lambda>x. (showNat x @ str '' '' @ showNat (h - y) @ str '' scanline\<newline>''))
                    (filter (\<lambda>x. 128 < alpha bytes w x y) [0..<w]))) [0..<h])"
proof -
  have "filter (\<lambda>x. opaque bytes ((y * w + x) * 4 + 3)) [0..<w]
      = filter (\<lambda>x. 128 < alpha bytes w x y) [0..<w]" if "y \<in> set [0..<h]" for y
  proof (rule filter_cong [OF refl])
    fix x assume "x \<in> set [0..<w]"
    then have "(y * w + x) * 4 + 3 < length bytes"
      using that assms pixel_in_range [of y h x w bytes] by simp
    then show "opaque bytes ((y * w + x) * 4 + 3) = (128 < alpha bytes w x y)"
      by (simp add: opaque_def alpha_def mult.commute)
  qed
  moreover have "scanline h x y = (showNat x @ str '' '' @ showNat (h - y) @ str '' scanline\<newline>'')" for x y
    by (simp add: scanline_def)
  ultimately show ?thesis
    by (intro arg_cong [where f = concat] map_cong refl) simp
qed

text \<open>
  C8. For every bitmap of width \<open>w\<close> and height \<open>h\<close> with an alpha channel (a canvas
  with a 2D context, \<open>4 * w * h\<close> bytes and no side equal to zero) the output is the
  header with the bounding box \<open>0 0 w h\<close>, then, for the pixels in raster order
  whose alpha value exceeds 128 and for no others, one line \<open>x (h - y) scanline\<close>
  each, then the footer \<open>showpage\<close>. For a 2 by 2 bitmap with every alpha value at
  255 the output has the bounding box \<open>0 0 2 2\<close> and exactly four such lines.
\<close>

theorem eps_one_line_per_opaque_pixel:
  "(context2d c = Some bytes \<and> length bytes = 4 * width c * height c
      \<and> 0 < width c \<and> 0 < height c \<longrightarrow>
      convertCanvasToEPS c =
        Inr (str ''%!PS-Adobe-3.0 EPSF-3.0\<newline>''
             @ str ''%%BoundingBox: 0 0 '' @ showNat (width c) @ str '' '' @ showNat (height c)
             @ str ''\<newline>''
             @ epsProlog
             @ concat (map (\<lambda>(x, y). showNat x @ str '' '' @ showNat (height c - y) @ str '' scanline\<newline>'')
                        (filter (\<lambda>(x, y). 128 < alpha bytes (width c) x y)
                           (rasterOrder (width c) (height c))))
             @ str ''showpage\<newline>''))
   \<and> convertCanvasToEPS
        \<lparr>width = 2, height = 2,
         context2d = Some [r0, g0, b0, 255, r1, g1, b1, 255, r2, g2, b2, 255, r3, g3, b3, 255]\<rparr>
       = Inr (str ''%!PS-Adobe-3.0 EPSF-3.0\<newline>''
              @ str ''%%BoundingBox: 0 0 2 2\<newline>''
              @ epsProlog
              @ str ''0 2 scanline\<newline>''
              @ str ''1 2 scanline\<newline>''
              @ str ''0 1 scanline\<newline>''
              @ str ''1 1 scanline\<newline>''
              @ str ''showpage\<newline>'')"
proof -
  have general: "convertCanvasToEPS c =
        Inr (str ''%!PS-Adobe-3.0 EPSF-3.0\<newline>''
             @ str ''%%BoundingBox: 0 0 '' @ showNat (width c) @ str '' '' @ showNat (height c)
             @ str ''\<newline>''
             @ epsProlog
             @ concat (map (\<lambda>(x, y). showNat x @ str '' '' @ showNat (height c - y) @ str '' scanline\<newline>'')
                        (filter (\<lambda>(x, y). 128 < alpha bytes (width c) x y)
                           (rasterOrder (width c) (height c))))
             @ str ''showpage\<newline>'')"
    if valid: "context2d c = Some bytes" "length bytes = 4 * width c * height c"
      "0 < width c" "0 < height c"
  proof -
    have "convertCanvasToEPS c =
        Inr (yLoop bytes (width c) (height c) 0 (epsHeader (width c) (height c))
             @ str ''showpage\<newline>'')"
      using valid by (simp add: convertCanvasToEPS_def getImageData_def)
    moreover have "epsHeader (width c) (height c) =
        str ''%!PS-Adobe-3.0 EPSF-3.0\<newline>''
        @ str ''%%BoundingBox: 0 0 '' @ showNat (width c) @ str '' '' @ showNat (height c)
        @ str ''\<newline>'' @ epsProlog"
      by (simp add: epsHeader_def epsProlog_def)
    ultimately show ?thesis
      unfolding yLoop_eq opaque_alpha [OF valid(2)] rasterOrder_def
        raster_rows [where f = "\<lambda>(x, y). showNat x @ str '' '' @ showNat (height c - y) @ str '' scanline\<newline>''"
          and P = "\<lambda>(x, y). 128 < alpha bytes (width c) x y"]
      by simp
  qed
  have example: "convertCanvasToEPS
        \<lparr>width = 2, height = 2,
         context2d = Some [r0, g0, b0, 255, r1, g1, b1, 255, r2, g2, b2, 255, r3, g3, b3, 255]\<rparr>
       = Inr (str ''%!PS-Adobe-3.0 EPSF-3.0\<newline>''
              @ str ''%%BoundingBox: 0 0 2 2\<newline>''
              @ epsProlog
              @ str ''0 2 scanline\<newline>''
              @ str ''1 2 scanline\<newline>''
              @ str ''0 1 scanline\<newline>''
              @ str ''1 1 scanline\<newline>''
              @ str ''showpage\<newline>'')"
    by (simp add: convertCanvasToEPS_def getImageData_def yLoop.simps xLoop.simps showNat.simps
        opaque_def scanline_def epsHeader_def epsProlog_def str_def)
  show ?thesis using general example by blast
qed

theorem eps_one_line_per_opaque_pixel_witness:
  "context2d \<lparr>width = 2, height = 2,
       context2d = Some [0, 0, 0, 128, 9, 9, 9, 129, 7, 7, 7, 255, 0, 0, 0, 0]\<rparr>
     = Some [0, 0, 0, 128, 9, 9, 9, 129, 7, 7, 7, 255, 0, 0, 0, 0]
   \<and> length [0, 0, 0, 128, 9, 9, 9, 129, 7, 7, 7, 255, 0, 0, 0, 0 :: 8 word] = 4 * 2 * 2
   \<and> filter (\<lambda>(x, y). 128 < alpha [0, 0, 0, 128, 9, 9, 9, 129, 7, 7, 7, 255, 0, 0, 0, 0] 2 x y)
        (rasterOrder 2 2) = [(1, 0), (0, 1)]
   \<and> convertCanvasToEPS
        \<lparr>width = 2, height = 2,
         context2d = Some [0, 0, 0, 128, 9, 9, 9, 129, 7, 7, 7, 255, 0, 0, 0, 0]\<rparr>
       = Inr (str ''%!PS-Adobe-3.0 EPSF-3.0\<newline>''
              @ str ''%%BoundingBox: 0 0 2 2\<newline>''
              @ epsProlog
              @ str ''1 2 scanline\<newline>''
              @ str ''0 1 scanline\<newline>''
              @ str ''showpage\<newline>'')"
proof -
  let ?bytes = "[0, 0, 0, 128, 9, 9, 9, 129, 7, 7, 7, 255, 0, 0, 0, 0] :: 8 word list"
  let ?c = "\<lparr>width = 2, height = 2, context2d = Some ?bytes\<rparr>"
  have valid: "context2d ?c = Some ?bytes \<and> length ?bytes = 4 * width ?c * height ?c
      \<and> 0 < width ?c \<and> 0 < height ?c"
    by simp
  have raster: "rasterOrder 2 2 = [(0, 0), (1, 0), (0, 1), (1, 1)]"
    by (simp add: rasterOrder_def upt_rec)
  have dark: "filter (\<lambda>(x, y). 128 < alpha ?bytes 2 x y) (rasterOrder 2 2) = [(1, 0), (0, 1)]"
    unfolding raster by (simp add: alpha_def)
  have two: "showNat 2 = str ''2''" and one: "showNat (Suc 0) = str ''1''" and zero: "showNat 0 = str ''0''"
    by (simp_all add: showNat.simps str_def)
  from eps_one_line_per_opaque_pixel [of ?c ?bytes] valid
  have "convertCanvasToEPS ?c =
        Inr (str ''%!PS-Adobe-3.0 EPSF-3.0\<newline>''
             @ str ''%%BoundingBox: 0 0 '' @ showNat (width ?c) @ str '' '' @ showNat (height ?c)
             @ str ''\<newline>''
             @ epsProlog
             @ concat (map (\<lambda>(x, y). showNat x @ str '' '' @ showNat (height ?c - y) @ str '' scanline\<newline>'')
                        (filter (\<lambda>(x, y). 128 < alpha ?bytes (width ?c) x y)
                           (rasterOrder (width ?c) (height ?c))))
             @ str ''showpage\<newline>'')"
    by blast
  then have "convertCanvasToEPS ?c
       = Inr (str ''%!PS-Adobe-3.0 EPSF-3.0\<newline>''
              @ str ''%%BoundingBox: 0 0 2 2\<newline>''
              @ epsProlog
              @ str ''1 2 scanline\<newline>''
              @ str ''0 1 scanline\<newline>''
              @ str ''showpage\<newline>'')"
    by (simp add: dark two one zero) (simp add: str_def)
  with dark show ?thesis by simp
qed

end
